theory Spec2Isabelle
  imports Main "HOL-Library.Multiset"
begin

section \<open>The aggregating reporter of mocha-parallel-tests (src/lib/reporter.js)\<close>

text \<open>
  The module keeps process-wide state (\<open>reporterInstance\<close>, \<open>testsFinished\<close>,
  \<open>failsOccured\<close>, \<open>stdMessagesMap\<close>, the listeners on \<open>stdStreamsEmitter\<close>) and one
  \<open>AbstractReporter\<close> object per test-file runner. All of it is event driven, so the
  model is a state record, one handler function per listener of the source, and a
  \<open>step\<close> function that dispatches one incoming signal to its handlers. Everything a
  handler does to the outside (calls on the wrapped runner, writes to the real streams,
  the construction of the user's reporter) is returned as a list of outputs.
  \<open>Date.now()\<close> is an input of the signal that reads it.
\<close>

subsection \<open>Data\<close>

text \<open>The arguments a runner passes along with an event are opaque to the reporter.\<close>

type_synonym args = string

definition RUNNER_EVENTS :: "string list" where
  "RUNNER_EVENTS =
     [''suite'', ''suite end'', ''test'', ''pending'', ''pass'', ''test end'', ''fail'',
      ''failRetry'']"

text \<open>The keys of \<open>originalWrites\<close>.\<close>

datatype stream_name = Stderr | Stdout

text \<open>An element of an array stored in \<open>stdMessagesMap\<close>.\<close>

record std_message =
  streamName :: stream_name
  message :: string
  timestamp :: int

text \<open>An element of \<open>this._eventsNotEmited\<close>; its fields are \<open>type\<close>, \<open>data\<close>, \<open>timestamp\<close>.\<close>

record stored_event =
  ev_type :: string
  ev_data :: args
  ev_timestamp :: int

text \<open>
  An element of \<open>allEvents\<close> in the \<open>end\<close> listener: the field \<open>type\<close> of the source is
  the constructor; the arguments are the payload (two fields each), then \<open>meta.index\<close>
  and \<open>meta.timestamp\<close>.
\<close>

datatype all_event =
    runnerEvent string args nat int
  | stdStreamMessage stream_name string nat int

fun meta_index :: "all_event \<Rightarrow> nat" where
  "meta_index (runnerEvent t d i ts) = i"
| "meta_index (stdStreamMessage sn m i ts) = i"

fun meta_timestamp :: "all_event \<Rightarrow> int" where
  "meta_timestamp (runnerEvent t d i ts) = ts"
| "meta_timestamp (stdStreamMessage sn m i ts) = ts"

fun is_runnerEvent :: "all_event \<Rightarrow> bool" where
  "is_runnerEvent (runnerEvent t d i ts) = True"
| "is_runnerEvent (stdStreamMessage sn m i ts) = False"

text \<open>The options object; a missing property is \<open>None\<close>.\<close>

record options =
  reporterName :: "string option"
  testsLength :: "int option"

text \<open>
  Of the runner the reporter reads \<open>runner.suite.suites\<close> only, and of each child suite
  its \<open>file\<close>: a runner is the list of the files of its root suite's child suites.
\<close>

type_synonym runner = "string list"

text \<open>
  One \<open>AbstractReporter\<close> object. \<open>_testFile\<close> stays \<open>undefined\<close> (\<open>None\<close>) when
  \<open>_detectFile\<close> does not assign it. \<open>_relativeFilePath\<close> is read by the debug log only
  and is left out, as is the log.
\<close>

record reporter =
  r_runner :: runner
  r_options :: options
  eventsNotEmited :: "stored_event list"
  testFile :: "string option"

text \<open>
  What \<open>require\<close> returns: the module's export, which \<open>_setReporterOnce\<close> tests for
  truthiness before it calls it as a constructor.
\<close>

datatype js_module = FalsyExport | ReporterClass string

text \<open>
  The environment of the process: \<open>require\<close> (\<open>None\<close> when it throws) and
  \<open>path.resolve(process.cwd(), name)\<close>.
\<close>

record env =
  js_require :: "string \<Rightarrow> js_module option"
  path_resolve_cwd :: "string \<Rightarrow> string"

datatype error = InvalidReporter string

text \<open>
  The module-level variables, the number of listeners \<open>_detectFile\<close> has registered for
  \<open>fail\<close> on \<open>stdStreamsEmitter\<close>, and the reporters constructed so far. A key of
  \<open>stdMessagesMap\<close> is a JavaScript value that is a string or \<open>undefined\<close> (\<open>None\<close>).
\<close>

record state =
  reporterInstance :: "(string \<times> options) option"
  testsFinished :: int
  failsOccured :: int
  stdMessagesMap :: "string option \<Rightarrow> std_message list option"
  failListeners :: nat
  reporters :: "reporter list"

definition init_state :: state where
  "init_state =
     \<lparr>reporterInstance = None, testsFinished = 0, failsOccured = 0,
      stdMessagesMap = (\<lambda>k. None), failListeners = 0, reporters = []\<rparr>"

text \<open>What a handler does to its collaborators, in the order it does it.\<close>

datatype effect =
    NewUserReporter string options  \<comment> \<open>\<open>new UserReporter(this._runnerWrapped, this._options)\<close>\<close>
  | WrappedStart                    \<comment> \<open>\<open>this._runnerWrapped.start()\<close>\<close>
  | WrappedEmit string args         \<comment> \<open>\<open>this._runnerWrapped.emit(type, ...data)\<close>\<close>
  | OriginalWrite stream_name string \<comment> \<open>\<open>originalWrites[streamName](message)\<close>\<close>
  | WrappedEnd int                  \<comment> \<open>\<open>this._runnerWrapped.end(failsOccured)\<close>\<close>
  | Thrown error                    \<comment> \<open>an exception leaves the constructor\<close>

subsection \<open>The listener for \<open>message\<close> on \<open>stdStreamsEmitter\<close>\<close>

text \<open>
  Modelled from the spec: the type of \<open>data.file\<close> and of the argument of \<open>fail\<close>. The
  watcher (lib/watcher.js) that emits both is not among the sources; by the spec's
  tagging protocol every captured message carries the file path of the worker it belongs
  to, so both are strings.
\<close>

type_synonym worker_file = string

text \<open>
  The listener: \<open>data\<close> is \<open>file\<close>, \<open>streamName\<close> and \<open>message\<close>; \<open>now\<close> is what \<open>Date.now()\<close>
  returns.
\<close>

definition on_message :: "worker_file \<Rightarrow> stream_name \<Rightarrow> string \<Rightarrow> int \<Rightarrow> state \<Rightarrow> state" where
  "on_message file sn msg now s =
     (let fileMessages = (case stdMessagesMap s (Some file) of None \<Rightarrow> [] | Some ms \<Rightarrow> ms)
      in s\<lparr>stdMessagesMap := (stdMessagesMap s)
              (Some file \<mapsto> fileMessages @ [\<lparr>streamName = sn, message = msg, timestamp = now\<rparr>])\<rparr>)"

subsection \<open>The listeners for \<open>fail\<close> on \<open>stdStreamsEmitter\<close>\<close>

text \<open>Each registered listener runs \<open>stdMessagesMap.delete(file)\<close>.\<close>

fun notify_fail :: "nat \<Rightarrow> string option \<Rightarrow> (string option \<Rightarrow> std_message list option)
    \<Rightarrow> (string option \<Rightarrow> std_message list option)" where
  "notify_fail 0 file m = m"
| "notify_fail (Suc n) file m = notify_fail n file (m(file := None))"

definition on_std_fail :: "worker_file \<Rightarrow> state \<Rightarrow> state" where
  "on_std_fail file s =
     s\<lparr>stdMessagesMap := notify_fail (failListeners s) (Some file) (stdMessagesMap s)\<rparr>"

subsection \<open>The constructor\<close>

definition reporterTryPaths :: "env \<Rightarrow> string \<Rightarrow> string list" where
  "reporterTryPaths e name =
     [''mocha/lib/reporters/'' @ name, name, path_resolve_cwd e name]"

text \<open>The loop over \<open>reporterTryPaths\<close>: the first \<open>require\<close> that returns ends it.\<close>

fun try_require :: "env \<Rightarrow> string list \<Rightarrow> js_module option" where
  "try_require e [] = None"
| "try_require e (reporterPath # rest) =
     (case js_require e reporterPath of
        Some m \<Rightarrow> Some m
      | None \<Rightarrow> try_require e rest)"

text \<open>\<open>this._options.reporterName || 'spec'\<close>: a missing or empty name is falsy.\<close>

definition effective_name :: "options \<Rightarrow> string" where
  "effective_name opts =
     (case reporterName opts of
        None \<Rightarrow> ''spec''
      | Some n \<Rightarrow> if n = [] then ''spec'' else n)"

text \<open>
  \<open>_setReporterOnce\<close> returns the outputs, the options object as it has left it and the
  new state, or the error it throws. A truthy export is taken to be a reporter class
  whose constructor returns.
\<close>

definition setReporterOnce :: "env \<Rightarrow> options \<Rightarrow> state \<Rightarrow> error + (effect list \<times> options \<times> state)"
  where
  "setReporterOnce e opts s =
     (case reporterInstance s of
        Some inst \<Rightarrow> Inr ([], opts, s)
      | None \<Rightarrow>
          (let name = effective_name opts;
               opts' = opts\<lparr>reporterName := Some name\<rparr>
           in case try_require e (reporterTryPaths e name) of
                Some (ReporterClass c) \<Rightarrow>
                  Inr ([NewUserReporter c opts'], opts',
                       s\<lparr>reporterInstance := Some (c, opts')\<rparr>)
              | Some FalsyExport \<Rightarrow> Inl (InvalidReporter name)
              | None \<Rightarrow> Inl (InvalidReporter name)))"

text \<open>\<open>_detectFile\<close> returns \<open>this._testFile\<close> and the state with its listener registered.\<close>

definition detectFile :: "runner \<Rightarrow> state \<Rightarrow> string option \<times> state" where
  "detectFile rn s =
     (case rn of
        [] \<Rightarrow> (None, s)
      | file # others \<Rightarrow> (Some file, s\<lparr>failListeners := Suc (failListeners s)\<rparr>))"

text \<open>
  \<open>new AbstractReporter(runner, options)\<close>. \<open>_listenToRunnerEvents\<close> registers the
  listeners on the runner: from then on the reporter is in \<open>reporters\<close>, and \<open>step\<close>
  hands it the signals of its runner.
\<close>

definition AbstractReporter :: "env \<Rightarrow> runner \<Rightarrow> options \<Rightarrow> state \<Rightarrow> error + (effect list \<times> state)"
  where
  "AbstractReporter e rn opts s =
     (case setReporterOnce e opts s of
        Inl err \<Rightarrow> Inl err
      | Inr (outs, opts', s1) \<Rightarrow>
          (case detectFile rn s1 of
             (tf, s2) \<Rightarrow>
               Inr (outs @ [WrappedStart],
                    s2\<lparr>reporters := reporters s2 @
                         [\<lparr>r_runner = rn, r_options = opts', eventsNotEmited = [],
                           testFile = tf\<rparr>]\<rparr>)))"

subsection \<open>The listeners for the events of \<open>RUNNER_EVENTS\<close>\<close>

definition storeEventData :: "string \<Rightarrow> args \<Rightarrow> int \<Rightarrow> reporter \<Rightarrow> reporter" where
  "storeEventData eventType a now this =
     this\<lparr>eventsNotEmited := eventsNotEmited this @
            [\<lparr>ev_type = eventType, ev_data = a, ev_timestamp = now\<rparr>]\<rparr>"

definition on_runner_event :: "nat \<Rightarrow> string \<Rightarrow> args \<Rightarrow> int \<Rightarrow> state \<Rightarrow> effect list \<times> state" where
  "on_runner_event c eventType a now s =
     (let s1 = s\<lparr>reporters := (reporters s)[c := storeEventData eventType a now (reporters s ! c)]\<rparr>
      in if eventType = ''fail'' then ([], s1\<lparr>failsOccured := failsOccured s1 + 1\<rparr>)
         else if eventType = ''failRetry'' then
           ([WrappedEmit eventType a], s1\<lparr>failsOccured := failsOccured s1 - 1\<rparr>)
         else ([], s1))"

subsection \<open>The listener for \<open>end\<close>\<close>

text \<open>The two \<open>forEach\<close> loops that fill \<open>allEvents\<close>.\<close>

definition build_allEvents :: "stored_event list \<Rightarrow> std_message list \<Rightarrow> all_event list" where
  "build_allEvents evs msgs =
     map (\<lambda>(index, eventData).
            runnerEvent (ev_type eventData) (ev_data eventData) index (ev_timestamp eventData))
         (enumerate 0 evs)
     @ map (\<lambda>(index, data).
            stdStreamMessage (streamName data) (message data) index (timestamp data))
         (enumerate 0 msgs)"

text \<open>The comparator handed to \<open>sort\<close>; timestamps and indices are integers.\<close>

definition compare_events :: "all_event \<Rightarrow> all_event \<Rightarrow> int" where
  "compare_events a b =
     (let timestampDiff = meta_timestamp a - meta_timestamp b
      in if timestampDiff \<noteq> 0 then timestampDiff
         else
           (let aEventWeight = (if is_runnerEvent a then 1 else 0 :: int);
                bEventWeight = (if is_runnerEvent b then 1 else 0 :: int);
                weightDiff = aEventWeight - bEventWeight
            in if weightDiff \<noteq> 0 then weightDiff
               else int (meta_index a) - int (meta_index b)))"

text \<open>
  \<open>allEvents.sort(comparator)\<close>, as an insertion sort that asks the comparator. The
  language leaves the algorithm open; \<open>sort_events_unique\<close> below shows that on the
  arrays \<open>end\<close> builds every ordering the comparator accepts is this one.
\<close>

fun insert_event :: "all_event \<Rightarrow> all_event list \<Rightarrow> all_event list" where
  "insert_event x [] = [x]"
| "insert_event x (y # ys) =
     (if compare_events x y \<le> 0 then x # y # ys else y # insert_event x ys)"

fun sort_events :: "all_event list \<Rightarrow> all_event list" where
  "sort_events [] = []"
| "sort_events (x # xs) = insert_event x (sort_events xs)"

text \<open>The body of the final \<open>forEach\<close>.\<close>

fun reemit :: "all_event \<Rightarrow> effect" where
  "reemit (runnerEvent t d i ts) = WrappedEmit t d"
| "reemit (stdStreamMessage sn m i ts) = OriginalWrite sn m"

text \<open>Combining, sorting and re-emitting: the \<open>end\<close> listener up to \<open>testsFinished++\<close>.\<close>

definition replay :: "stored_event list \<Rightarrow> std_message list \<Rightarrow> effect list" where
  "replay evs msgs = map reemit (sort_events (build_allEvents evs msgs))"

definition on_end :: "nat \<Rightarrow> state \<Rightarrow> effect list \<times> state" where
  "on_end c s =
     (let this = reporters s ! c;
          replayed = replay (eventsNotEmited this)
                       (case stdMessagesMap s (testFile this) of None \<Rightarrow> [] | Some ms \<Rightarrow> ms);
          s1 = s\<lparr>testsFinished := testsFinished s + 1\<rparr>
      in if Some (testsFinished s1) = testsLength (r_options this)
         then (replayed @ [WrappedEnd (failsOccured s1)], s1)
         else (replayed, s1))"

subsection \<open>Signals and runs\<close>

text \<open>
  The signals that reach the module: a \<open>message\<close> or a \<open>fail\<close> on \<open>stdStreamsEmitter\<close>, a
  construction, and an event of the runner of the \<open>c\<close>-th reporter constructed, with the
  value \<open>Date.now()\<close> has while it is handled.
\<close>

datatype signal =
    StdMessage worker_file stream_name string int
  | StdFail worker_file
  | Construct runner options
  | RunnerSignal nat string args int

text \<open>
  A runner no reporter listens to is not heard, nor is an event other than \<open>end\<close> and
  those of \<open>RUNNER_EVENTS\<close>. An exception of the constructor leaves the state as it was:
  \<open>reporterInstance\<close> is assigned after the \<open>throw\<close>, and the object under construction
  is lost.
\<close>

definition step :: "env \<Rightarrow> state \<Rightarrow> signal \<Rightarrow> effect list \<times> state" where
  "step e s sig =
     (case sig of
        StdMessage file sn msg now \<Rightarrow> ([], on_message file sn msg now s)
      | StdFail file \<Rightarrow> ([], on_std_fail file s)
      | Construct rn opts \<Rightarrow>
          (case AbstractReporter e rn opts s of
             Inl err \<Rightarrow> ([Thrown err], s)
           | Inr r \<Rightarrow> r)
      | RunnerSignal c eventType a now \<Rightarrow>
          if c < length (reporters s) then
            if eventType \<in> set RUNNER_EVENTS then on_runner_event c eventType a now s
            else if eventType = ''end'' then on_end c s
            else ([], s)
          else ([], s))"

fun run :: "env \<Rightarrow> state \<Rightarrow> signal list \<Rightarrow> effect list \<times> state" where
  "run e s [] = ([], s)"
| "run e s (sig # sigs) =
     (case step e s sig of
        (outs, s1) \<Rightarrow> (case run e s1 sigs of (outs', s2) \<Rightarrow> (outs @ outs', s2)))"

subsection \<open>The order of the specification\<close>

text \<open>
  The specification's words for the sort: timestamp ascending, then a lifecycle event
  after a captured message, then the index ascending.
\<close>

definition type_weight :: "all_event \<Rightarrow> nat" where
  "type_weight a = (if is_runnerEvent a then 1 else 0)"

definition spec_before :: "all_event \<Rightarrow> all_event \<Rightarrow> bool" where
  "spec_before a b \<longleftrightarrow>
     meta_timestamp a < meta_timestamp b
     \<or> (meta_timestamp a = meta_timestamp b
        \<and> (type_weight a < type_weight b
           \<or> (type_weight a = type_weight b \<and> meta_index a < meta_index b)))"

subsection \<open>Observing a run\<close>

text \<open>The reporter whose listeners a signal runs, if it is a signal of a runner.\<close>

fun origin :: "signal \<Rightarrow> nat option" where
  "origin (RunnerSignal c eventType a now) = Some c"
| "origin (StdMessage file sn msg now) = None"
| "origin (StdFail file) = None"
| "origin (Construct rn opts) = None"

text \<open>The effects of a run that the handlers of origin \<open>w\<close> have produced.\<close>

fun effects_from :: "env \<Rightarrow> state \<Rightarrow> nat option \<Rightarrow> signal list \<Rightarrow> effect list" where
  "effects_from e s w [] = []"
| "effects_from e s w (sig # sigs) =
     (if origin sig = w then fst (step e s sig) else [])
     @ effects_from e (snd (step e s sig)) w sigs"

text \<open>A signal is heard as event \<open>t\<close> when a constructed reporter listens to its runner.\<close>

fun heard :: "state \<Rightarrow> string \<Rightarrow> signal \<Rightarrow> bool" where
  "heard s t (RunnerSignal c eventType a now) \<longleftrightarrow> c < length (reporters s) \<and> eventType = t"
| "heard s t (StdMessage file sn msg now) \<longleftrightarrow> False"
| "heard s t (StdFail file) \<longleftrightarrow> False"
| "heard s t (Construct rn opts) \<longleftrightarrow> False"

fun count_heard :: "env \<Rightarrow> state \<Rightarrow> string \<Rightarrow> signal list \<Rightarrow> nat" where
  "count_heard e s t [] = 0"
| "count_heard e s t (sig # sigs) =
     (if heard s t sig then 1 else 0) + count_heard e (snd (step e s sig)) t sigs"

fun is_construction :: "effect \<Rightarrow> bool" where
  "is_construction (NewUserReporter c opts) = True"
| "is_construction x = False"

text \<open>A forwarded event or a written message.\<close>

fun is_emission :: "effect \<Rightarrow> bool" where
  "is_emission (WrappedEmit t d) = True"
| "is_emission (OriginalWrite sn m) = True"
| "is_emission x = False"

fun is_finalization :: "effect \<Rightarrow> bool" where
  "is_finalization (WrappedEnd n) = True"
| "is_finalization x = False"

text \<open>No forwarded event and no written message stands before the first construction.\<close>

fun constructed_first :: "effect list \<Rightarrow> bool" where
  "constructed_first [] = True"
| "constructed_first (x # xs) \<longleftrightarrow> is_construction x \<or> (\<not> is_emission x \<and> constructed_first xs)"

text \<open>The array \<open>stdMessagesMap.get(key) || []\<close>.\<close>

definition messages_for :: "state \<Rightarrow> string option \<Rightarrow> std_message list" where
  "messages_for s key = (case stdMessagesMap s key of None \<Rightarrow> [] | Some ms \<Rightarrow> ms)"

text \<open>
  What a list of signals leaves captured for \<open>file\<close>, given what was captured before it,
  when a listener for \<open>fail\<close> is registered: read off the signals alone.
\<close>

fun captured :: "worker_file \<Rightarrow> signal list \<Rightarrow> std_message list \<Rightarrow> std_message list" where
  "captured file [] acc = acc"
| "captured file (StdMessage file' sn msg now # sigs) acc =
     captured file sigs
       (if file' = file then acc @ [\<lparr>streamName = sn, message = msg, timestamp = now\<rparr>] else acc)"
| "captured file (StdFail file' # sigs) acc =
     captured file sigs (if file' = file then [] else acc)"
| "captured file (Construct rn opts # sigs) acc = captured file sigs acc"
| "captured file (RunnerSignal c eventType a now # sigs) acc = captured file sigs acc"

text \<open>
  The events of \<open>RUNNER_EVENTS\<close> that the runner of reporter \<open>c\<close> emits in a list of
  signals, as \<open>_storeEventData\<close> records them: read off the signals alone.
\<close>

fun events_of :: "nat \<Rightarrow> signal list \<Rightarrow> stored_event list" where
  "events_of c [] = []"
| "events_of c (RunnerSignal c' eventType a now # sigs) =
     (if c' = c \<and> eventType \<in> set RUNNER_EVENTS
      then [\<lparr>ev_type = eventType, ev_data = a, ev_timestamp = now\<rparr>] else [])
     @ events_of c sigs"
| "events_of c (StdMessage file sn msg now # sigs) = events_of c sigs"
| "events_of c (StdFail file # sigs) = events_of c sigs"
| "events_of c (Construct rn opts # sigs) = events_of c sigs"

text \<open>What two entries of \<open>allEvents\<close> of the same type share: the type and the index.\<close>

definition slot :: "all_event \<Rightarrow> bool \<times> nat" where
  "slot a = (is_runnerEvent a, meta_index a)"

subsection \<open>A process for the examples\<close>

text \<open>Only mocha's own \<open>spec\<close> reporter can be loaded.\<close>

definition env_spec :: env where
  "env_spec =
     \<lparr>js_require = (\<lambda>p. if p = ''mocha/lib/reporters/spec'' then Some (ReporterClass ''Spec'')
                         else None),
      path_resolve_cwd = (\<lambda>name. ''/cwd/'' @ name)\<rparr>"

definition opts_for :: "int \<Rightarrow> options" where
  "opts_for n = \<lparr>reporterName = None, testsLength = Some n\<rparr>"

text \<open>A process in which no reporter can be loaded.\<close>

definition env_none :: env where
  "env_none = \<lparr>js_require = (\<lambda>p. None), path_resolve_cwd = (\<lambda>name. ''/cwd/'' @ name)\<rparr>"

text \<open>
  A process in which \<open>dot\<close> is both one of mocha's reporters and an installed package.
\<close>

definition env_dot :: env where
  "env_dot =
     \<lparr>js_require = (\<lambda>p. if p = ''mocha/lib/reporters/dot'' then Some (ReporterClass ''mocha dot'')
                         else if p = ''dot'' then Some (ReporterClass ''package dot'')
                         else None),
      path_resolve_cwd = (\<lambda>name. ''/cwd/'' @ name)\<rparr>"

definition opts_named :: "string \<Rightarrow> options" where
  "opts_named name = \<lparr>reporterName = Some name, testsLength = Some 1\<rparr>"

text \<open>One reporter is constructed and its runner has not emitted anything yet.\<close>

definition construct_run :: "signal list" where
  "construct_run = [Construct [''a.js''] (opts_for 1)]"

text \<open>
  What the runner of a suite-less worker and the watcher emit after the worker's reporter
  has been constructed.
\<close>

definition suiteless_run :: "signal list" where
  "suiteless_run =
     [RunnerSignal 0 ''test'' ''T'' 1,
      StdMessage ''a.js'' Stdout ''m'' 2,
      StdFail ''a.js'',
      RunnerSignal 0 ''pass'' ''T'' 3]"

text \<open>
  One worker: three events stamped 10, 20, 20 and two messages stamped 20 and 15, in
  the order they arrive.
\<close>

definition example_events :: "stored_event list" where
  "example_events =
     [\<lparr>ev_type = ''suite'', ev_data = ''S'', ev_timestamp = 10\<rparr>,
      \<lparr>ev_type = ''test'', ev_data = ''T'', ev_timestamp = 20\<rparr>,
      \<lparr>ev_type = ''pass'', ev_data = ''T'', ev_timestamp = 20\<rparr>]"

definition example_messages :: "std_message list" where
  "example_messages =
     [\<lparr>streamName = Stdout, message = ''m1'', timestamp = 20\<rparr>,
      \<lparr>streamName = Stderr, message = ''m2'', timestamp = 15\<rparr>]"

definition example_run :: "signal list" where
  "example_run =
     [Construct [''a.js''] (opts_for 2),
      RunnerSignal 0 ''suite'' ''S'' 10,
      StdMessage ''a.js'' Stdout ''m1'' 20,
      RunnerSignal 0 ''test'' ''T'' 20,
      RunnerSignal 0 ''pass'' ''T'' 20,
      StdMessage ''a.js'' Stderr ''m2'' 15]"

text \<open>
  One worker whose test fails and is tried again: a message of the abandoned attempt, the
  failure, the \<open>fail\<close> of the watcher that announces the new attempt, the \<open>failRetry\<close> of
  the runner, then a message and a \<open>pass\<close> of the new attempt.
\<close>

definition retry_run :: "signal list" where
  "retry_run =
     [Construct [''a.js''] (opts_for 1),
      StdMessage ''a.js'' Stdout ''old'' 1,
      RunnerSignal 0 ''fail'' ''T'' 2,
      StdFail ''a.js'',
      RunnerSignal 0 ''failRetry'' ''T'' 3,
      StdMessage ''a.js'' Stdout ''new'' 4,
      RunnerSignal 0 ''pass'' ''T'' 5]"

text \<open>
  The same worker when only its runner tells of the retry: the watcher emits no \<open>fail\<close>.
\<close>

definition runner_retry_run :: "signal list" where
  "runner_retry_run =
     [Construct [''a.js''] (opts_for 1),
      StdMessage ''a.js'' Stdout ''old'' 1,
      RunnerSignal 0 ''fail'' ''T'' 2,
      RunnerSignal 0 ''failRetry'' ''T'' 3,
      RunnerSignal 0 ''pass'' ''T'' 4]"

text \<open>
  Two reporters constructed for the same file; a message of the file is captured and the
  runner of the second reporter ends while that of the first has not.
\<close>

definition shared_run :: "signal list" where
  "shared_run =
     [Construct [''a.js''] (opts_for 2),
      Construct [''a.js''] (opts_for 2),
      RunnerSignal 0 ''test'' ''T'' 1,
      StdMessage ''a.js'' Stdout ''m'' 2,
      RunnerSignal 1 ''end'' [] 3]"

text \<open>
  A worker with a suite, then a worker without suites whose output the watcher stores
  under \<open>a.js\<close>.
\<close>

definition beside_run :: "signal list" where
  "beside_run =
     [Construct [''b.js''] (opts_for 2),
      Construct [] (opts_for 2),
      StdMessage ''a.js'' Stdout ''m'' 1]"

text \<open>
  Two workers and an expected count of two: a failure that is retried, a failure that
  stays, and both completions.
\<close>

definition barrier_run :: "signal list" where
  "barrier_run =
     [Construct [''a.js''] (opts_for 2),
      Construct [''b.js''] (opts_for 2),
      RunnerSignal 0 ''fail'' ''T1'' 1,
      RunnerSignal 0 ''failRetry'' ''T1'' 2,
      RunnerSignal 1 ''fail'' ''T2'' 3,
      RunnerSignal 0 ''end'' [] 4,
      RunnerSignal 1 ''end'' [] 5]"

text \<open>
  The same two workers once both reporters are constructed, and what follows up to the
  completion of the first.
\<close>

definition barrier_started :: state where
  "barrier_started = snd (run env_spec init_state (take 2 barrier_run))"

definition barrier_middle :: "signal list" where
  "barrier_middle = take 4 (drop 2 barrier_run)"

text \<open>Two workers complete where one is expected.\<close>

definition over_run :: "signal list" where
  "over_run =
     [Construct [''a.js''] (opts_for 1),
      Construct [''b.js''] (opts_for 1),
      RunnerSignal 0 ''end'' [] 1,
      RunnerSignal 1 ''end'' [] 2]"

text \<open>A worker completes where none is expected.\<close>

definition zero_run :: "signal list" where
  "zero_run = [Construct [''a.js''] (opts_for 0), RunnerSignal 0 ''end'' [] 1]"

section \<open>The merge order\<close>

text \<open>The comparator is negative exactly where the specification's order holds.\<close>

lemma compare_events_neg: "compare_events a b < 0 \<longleftrightarrow> spec_before a b"
  by (cases a; cases b) (auto simp: compare_events_def spec_before_def type_weight_def Let_def)

lemma compare_events_flip: "compare_events b a = - compare_events a b"
  by (cases a; cases b) (auto simp: compare_events_def Let_def)

lemma compare_events_zero:
  "compare_events a b = 0 \<longleftrightarrow>
     meta_timestamp a = meta_timestamp b \<and> is_runnerEvent a = is_runnerEvent b
     \<and> meta_index a = meta_index b"
  by (cases a; cases b) (auto simp: compare_events_def Let_def)

lemma compare_le_trans:
  "compare_events a b \<le> 0 \<Longrightarrow> compare_events b c \<le> 0 \<Longrightarrow> compare_events a c \<le> 0"
  by (cases a; cases b; cases c) (auto simp: compare_events_def Let_def split: if_splits)

lemma spec_before_trans: "spec_before a b \<Longrightarrow> spec_before b c \<Longrightarrow> spec_before a c"
  by (auto simp: spec_before_def)

lemma spec_before_irrefl: "\<not> spec_before a a"
  by (auto simp: spec_before_def)

lemma spec_before_total: "slot a \<noteq> slot b \<Longrightarrow> spec_before a b \<or> spec_before b a"
  by (cases a; cases b) (auto simp: spec_before_def slot_def type_weight_def)

lemma compare_le_strict:
  "compare_events a b \<le> 0 \<Longrightarrow> slot a \<noteq> slot b \<Longrightarrow> spec_before a b"
  using compare_events_zero [of a b] compare_events_neg [of a b]
  by (auto simp: slot_def)

subsection \<open>The sort\<close>

lemma mset_insert_event: "mset (insert_event x xs) = add_mset x (mset xs)"
  by (induction xs) auto

lemma mset_sort_events: "mset (sort_events xs) = mset xs"
  by (induction xs) (auto simp: mset_insert_event)

lemma set_insert_event: "set (insert_event x xs) = insert x (set xs)"
  by (induction xs) auto

lemma sorted_insert_event:
  "sorted_wrt (\<lambda>a b. compare_events a b \<le> 0) xs
   \<Longrightarrow> sorted_wrt (\<lambda>a b. compare_events a b \<le> 0) (insert_event x xs)"
proof (induction xs)
  case Nil
  then show ?case by simp
next
  case (Cons y ys)
  show ?case
  proof (cases "compare_events x y \<le> 0")
    case True
    with Cons.prems show ?thesis by (auto intro: compare_le_trans)
  next
    case False
    then have "compare_events y x \<le> 0" using compare_events_flip [of y x] by simp
    with False Cons show ?thesis by (auto simp: set_insert_event)
  qed
qed

lemma sorted_sort_events: "sorted_wrt (\<lambda>a b. compare_events a b \<le> 0) (sort_events xs)"
  by (induction xs) (auto simp: sorted_insert_event)

lemma sorted_strict:
  "sorted_wrt (\<lambda>a b. compare_events a b \<le> 0) xs \<Longrightarrow> distinct (map slot xs)
   \<Longrightarrow> sorted_wrt spec_before xs"
  by (induction xs) (auto intro: compare_le_strict)

text \<open>Two lists in the specification's order with the same elements are the same list.\<close>

lemma strict_sorted_unique:
  "sorted_wrt spec_before xs \<Longrightarrow> sorted_wrt spec_before ys \<Longrightarrow> set xs = set ys \<Longrightarrow> xs = ys"
proof (induction xs arbitrary: ys)
  case Nil
  then show ?case by simp
next
  case (Cons x xs)
  then obtain y ys' where ys: "ys = y # ys'" by (cases ys) auto
  have xy: "x = y"
  proof (rule ccontr)
    assume ne: "x \<noteq> y"
    with Cons.prems ys have "x \<in> set ys'" "y \<in> set xs" by auto
    with Cons.prems ys have "spec_before y x" "spec_before x y" by auto
    then show False using spec_before_trans spec_before_irrefl by blast
  qed
  have "x \<notin> set xs" "y \<notin> set ys'"
    using Cons.prems ys spec_before_irrefl by auto
  with Cons.prems ys xy have "set xs = set ys'" by auto
  with Cons ys xy show ?case by auto
qed

text \<open>
  Whatever algorithm \<open>sort\<close> runs, it returns a rearrangement that the comparator
  accepts; when no two entries share a slot there is one such rearrangement.
\<close>

lemma sort_events_unique:
  assumes "distinct (map slot xs)" "mset ys = mset xs"
    "sorted_wrt (\<lambda>a b. compare_events a b \<le> 0) ys"
  shows "ys = sort_events xs"
proof -
  have "mset (map slot ys) = mset (map slot xs)" using assms(2) by simp
  then have dy: "distinct (map slot ys)" using assms(1) mset_eq_imp_distinct_iff by blast
  have "mset (map slot (sort_events xs)) = mset (map slot xs)"
    by (simp add: mset_sort_events)
  then have ds: "distinct (map slot (sort_events xs))"
    using assms(1) mset_eq_imp_distinct_iff by blast
  have "set ys = set (sort_events xs)"
    using assms(2) mset_sort_events [of xs] by (metis set_mset_mset)
  then show ?thesis
    using strict_sorted_unique sorted_strict [OF assms(3) dy]
      sorted_strict [OF sorted_sort_events ds] by blast
qed

text \<open>The array that \<open>end\<close> builds never has two entries in one slot.\<close>

lemma build_allEvents_distinct: "distinct (map slot (build_allEvents evs msgs))"
proof -
  have 1: "map slot (map (\<lambda>(index, eventData).
            runnerEvent (ev_type eventData) (ev_data eventData) index (ev_timestamp eventData))
         (enumerate 0 evs)) = map (\<lambda>i. (True, i)) [0..<length evs]"
    by (auto simp: slot_def enumerate_eq_zip intro!: nth_equalityI)
  have 2: "map slot (map (\<lambda>(index, data).
            stdStreamMessage (streamName data) (message data) index (timestamp data))
         (enumerate 0 msgs)) = map (\<lambda>i. (False, i)) [0..<length msgs]"
    by (auto simp: slot_def enumerate_eq_zip intro!: nth_equalityI)
  show ?thesis
    unfolding build_allEvents_def map_append 1 2
    by (auto simp: distinct_map inj_on_def)
qed

text \<open>
  C6, as the code has it. For a worker with lifecycle events stamped 10, 20, 20 and
  captured messages stamped 20 and 15, in arrival order, the replay is: the event at 10,
  the message at 15, the message at 20, the first event at 20, the second event at 20.
  The event at 10 comes before the message at 15, since the timestamp is the primary key.
\<close>

theorem replay_order_example:
  "replay
     [\<lparr>ev_type = t1, ev_data = d1, ev_timestamp = 10\<rparr>,
      \<lparr>ev_type = t2, ev_data = d2, ev_timestamp = 20\<rparr>,
      \<lparr>ev_type = t3, ev_data = d3, ev_timestamp = 20\<rparr>]
     [\<lparr>streamName = s1, message = m1, timestamp = 20\<rparr>,
      \<lparr>streamName = s2, message = m2, timestamp = 15\<rparr>]
   = [WrappedEmit t1 d1, OriginalWrite s2 m2, OriginalWrite s1 m1, WrappedEmit t2 d2,
      WrappedEmit t3 d3]"
  by (simp add: replay_def build_allEvents_def enumerate_eq_zip compare_events_def upt_rec)

text \<open>
  C6, as the specification has it, fails: after the example run the reporter holds the
  three events and the two messages, and at \<open>end\<close> it does not replay the message at 15
  before the event at 10.
\<close>

theorem replay_order_example_counterexample:
  "eventsNotEmited (reporters (snd (run env_spec init_state example_run)) ! 0) = example_events
   \<and> messages_for (snd (run env_spec init_state example_run)) (Some ''a.js'') = example_messages
   \<and> fst (step env_spec (snd (run env_spec init_state example_run))
            (RunnerSignal 0 ''end'' [] 30))
       \<noteq> [OriginalWrite Stderr ''m2'', WrappedEmit ''suite'' ''S'', OriginalWrite Stdout ''m1'',
          WrappedEmit ''test'' ''T'', WrappedEmit ''pass'' ''T'']"
  by code_simp

section \<open>Buffering until \<open>end\<close>\<close>

subsection \<open>What one signal does\<close>

lemma step_StdMessage: "step e s (StdMessage file sn msg now) = ([], on_message file sn msg now s)"
  by (simp add: step_def)

lemma step_StdFail: "step e s (StdFail file) = ([], on_std_fail file s)"
  by (simp add: step_def)

lemma step_Construct:
  "step e s (Construct rn opts) =
     (case AbstractReporter e rn opts s of Inl err \<Rightarrow> ([Thrown err], s) | Inr r \<Rightarrow> r)"
  by (simp add: step_def)

lemma step_unheard:
  "\<not> c < length (reporters s) \<Longrightarrow> step e s (RunnerSignal c t a now) = ([], s)"
  by (simp add: step_def)

lemma step_end:
  "c < length (reporters s) \<Longrightarrow> step e s (RunnerSignal c ''end'' a now) = on_end c s"
  by (simp add: step_def RUNNER_EVENTS_def)

lemma step_event:
  "c < length (reporters s) \<Longrightarrow> t \<in> set RUNNER_EVENTS
   \<Longrightarrow> step e s (RunnerSignal c t a now) = on_runner_event c t a now s"
  by (simp add: step_def)

lemma step_other:
  "t \<notin> set RUNNER_EVENTS \<Longrightarrow> t \<noteq> ''end'' \<Longrightarrow> step e s (RunnerSignal c t a now) = ([], s)"
  by (simp add: step_def)

lemma fst_on_runner_event:
  "fst (on_runner_event c t a now s) = (if t = ''failRetry'' then [WrappedEmit t a] else [])"
  by (simp add: on_runner_event_def Let_def)

lemma setReporterOnce_effects:
  "setReporterOnce e opts s = Inr (outs, opts', s1)
   \<Longrightarrow> outs = [] \<or> (\<exists>c. outs = [NewUserReporter c opts'])"
  by (auto simp: setReporterOnce_def Let_def split: option.splits js_module.splits)

lemma AbstractReporter_effects:
  "AbstractReporter e rn opts s = Inr (outs, s')
   \<Longrightarrow> outs = [WrappedStart] \<or> (\<exists>c os. outs = [NewUserReporter c os, WrappedStart])"
  by (auto simp: AbstractReporter_def split: sum.splits prod.splits dest: setReporterOnce_effects)

lemma step_Construct_effects:
  "x \<in> set (fst (step e s (Construct rn opts))) \<Longrightarrow> \<not> is_emission x \<and> \<not> is_finalization x"
  by (auto simp: step_Construct split: sum.splits dest!: AbstractReporter_effects)

lemma early_signal_effects:
  assumes "t \<noteq> ''end''" "x \<in> set (fst (step e s (RunnerSignal c t a now)))"
  shows "x = WrappedEmit ''failRetry'' a"
proof (cases "c < length (reporters s) \<and> t \<in> set RUNNER_EVENTS")
  case True
  with assms show ?thesis
    by (auto simp: step_event fst_on_runner_event split: if_splits)
next
  case False
  with assms show ?thesis
    by (auto simp: step_def split: if_splits)
qed

section \<open>The counters and the end of the run\<close>

subsection \<open>Runs\<close>

lemma fst_run_Cons:
  "fst (run e s (sig # sigs)) = fst (step e s sig) @ fst (run e (snd (step e s sig)) sigs)"
  by (simp split: prod.splits)

lemma snd_run_Cons: "snd (run e s (sig # sigs)) = snd (run e (snd (step e s sig)) sigs)"
  by (simp split: prod.splits)

lemma fst_run_append:
  "fst (run e s (xs @ ys)) = fst (run e s xs) @ fst (run e (snd (run e s xs)) ys)"
proof (induction xs arbitrary: s)
  case Nil
  then show ?case by simp
next
  case (Cons x xs)
  then show ?case unfolding append_Cons fst_run_Cons snd_run_Cons by simp
qed

lemma snd_run_append: "snd (run e s (xs @ ys)) = snd (run e (snd (run e s xs)) ys)"
proof (induction xs arbitrary: s)
  case Nil
  then show ?case by simp
next
  case (Cons x xs)
  then show ?case unfolding append_Cons snd_run_Cons by simp
qed

lemma count_heard_append:
  "count_heard e s t (xs @ ys) = count_heard e s t xs + count_heard e (snd (run e s xs)) t ys"
proof (induction xs arbitrary: s)
  case Nil
  then show ?case by simp
next
  case (Cons x xs)
  then show ?case unfolding append_Cons count_heard.simps snd_run_Cons by simp
qed

lemma replay_no_finalization: "filter is_finalization (replay evs msgs) = []"
proof -
  have "\<not> is_finalization (reemit a)" for a by (cases a) auto
  then show ?thesis by (simp add: replay_def)
qed

lemma setReporterOnce_fields:
  "setReporterOnce e opts s = Inr (outs, opts', s1)
   \<Longrightarrow> testsLength opts' = testsLength opts \<and> testsFinished s1 = testsFinished s
     \<and> failsOccured s1 = failsOccured s \<and> reporters s1 = reporters s
     \<and> stdMessagesMap s1 = stdMessagesMap s \<and> failListeners s1 = failListeners s"
  by (auto simp: setReporterOnce_def Let_def split: option.splits js_module.splits)

lemma AbstractReporter_fields:
  assumes "AbstractReporter e rn opts s = Inr (outs, s')"
  shows "testsFinished s' = testsFinished s" "failsOccured s' = failsOccured s"
    "stdMessagesMap s' = stdMessagesMap s"
    "\<exists>r. reporters s' = reporters s @ [r] \<and> testsLength (r_options r) = testsLength opts
        \<and> testFile r = (case rn of [] \<Rightarrow> None | file # others \<Rightarrow> Some file)
        \<and> eventsNotEmited r = []"
    "failListeners s' = (case rn of [] \<Rightarrow> failListeners s | file # others \<Rightarrow> Suc (failListeners s))"
  using assms
  by (auto simp: AbstractReporter_def detectFile_def split: sum.splits prod.splits list.splits
      dest!: setReporterOnce_fields)

lemma on_runner_event_fields:
  "testsFinished (snd (on_runner_event c t a now s)) = testsFinished s"
  "failsOccured (snd (on_runner_event c t a now s)) =
     failsOccured s + (if t = ''fail'' then 1 else 0) - (if t = ''failRetry'' then 1 else 0)"
  "stdMessagesMap (snd (on_runner_event c t a now s)) = stdMessagesMap s"
  "failListeners (snd (on_runner_event c t a now s)) = failListeners s"
  "reporterInstance (snd (on_runner_event c t a now s)) = reporterInstance s"
  "reporters (snd (on_runner_event c t a now s)) =
     (reporters s)[c := storeEventData t a now (reporters s ! c)]"
  by (simp_all add: on_runner_event_def Let_def)

lemma on_end_fields:
  "testsFinished (snd (on_end c s)) = testsFinished s + 1"
  "failsOccured (snd (on_end c s)) = failsOccured s"
  "stdMessagesMap (snd (on_end c s)) = stdMessagesMap s"
  "failListeners (snd (on_end c s)) = failListeners s"
  "reporterInstance (snd (on_end c s)) = reporterInstance s"
  "reporters (snd (on_end c s)) = reporters s"
  by (simp_all add: on_end_def Let_def)

lemma fst_on_end:
  "fst (on_end c s) =
     replay (eventsNotEmited (reporters s ! c)) (messages_for s (testFile (reporters s ! c)))
     @ (if testsLength (r_options (reporters s ! c)) = Some (testsFinished s + 1)
        then [WrappedEnd (failsOccured s)] else [])"
  by (auto simp: on_end_def Let_def messages_for_def)

lemma end_not_event: "''end'' \<notin> set RUNNER_EVENTS"
  by (simp add: RUNNER_EVENTS_def)

lemma fail_events: "''fail'' \<in> set RUNNER_EVENTS" "''failRetry'' \<in> set RUNNER_EVENTS"
  by (simp_all add: RUNNER_EVENTS_def)

lemma step_RunnerSignal_cases:
  obtains
    (unheard) "\<not> c < length (reporters s)" "step e s (RunnerSignal c t a now) = ([], s)"
  | (event) "c < length (reporters s)" "t \<in> set RUNNER_EVENTS" "t \<noteq> ''end''"
      "step e s (RunnerSignal c t a now) = on_runner_event c t a now s"
  | (ended) "c < length (reporters s)" "t = ''end''"
      "step e s (RunnerSignal c t a now) = on_end c s"
  | (other) "c < length (reporters s)" "t \<noteq> ''end''" "t \<noteq> ''fail''" "t \<noteq> ''failRetry''"
      "step e s (RunnerSignal c t a now) = ([], s)"
proof (cases "c < length (reporters s)")
  case False
  then show ?thesis using unheard step_unheard by blast
next
  case c: True
  show ?thesis
  proof (cases "t \<in> set RUNNER_EVENTS")
    case True
    with c show ?thesis using event [OF c True] step_event end_not_event by metis
  next
    case nev: False
    show ?thesis
    proof (cases "t = ''end''")
      case True
      with c show ?thesis using ended step_end by blast
    next
      case False
      with c nev show ?thesis using other [OF c False] step_other fail_events by metis
    qed
  qed
qed

lemma testsFinished_step:
  "testsFinished (snd (step e s sig)) = testsFinished s + (if heard s ''end'' sig then 1 else 0)"
proof (cases sig)
  case (StdMessage f sn msg now)
  then show ?thesis by (simp add: step_StdMessage on_message_def Let_def)
next
  case (StdFail f)
  then show ?thesis by (simp add: step_StdFail on_std_fail_def)
next
  case (Construct rn opts)
  then show ?thesis
    by (auto simp: step_Construct split: sum.splits dest: AbstractReporter_fields(1))
next
  case (RunnerSignal c t a now)
  show ?thesis
    unfolding RunnerSignal
    by (cases rule: step_RunnerSignal_cases [of c s e t a now])
      (simp_all add: on_runner_event_fields on_end_fields)
qed

lemma failsOccured_step:
  "failsOccured (snd (step e s sig)) =
     failsOccured s + (if heard s ''fail'' sig then 1 else 0)
       - (if heard s ''failRetry'' sig then 1 else 0)"
proof (cases sig)
  case (StdMessage f sn msg now)
  then show ?thesis by (simp add: step_StdMessage on_message_def Let_def)
next
  case (StdFail f)
  then show ?thesis by (simp add: step_StdFail on_std_fail_def)
next
  case (Construct rn opts)
  then show ?thesis
    by (auto simp: step_Construct split: sum.splits dest: AbstractReporter_fields(2))
next
  case (RunnerSignal c t a now)
  show ?thesis
    unfolding RunnerSignal
    by (cases rule: step_RunnerSignal_cases [of c s e t a now])
      (simp_all add: on_runner_event_fields on_end_fields)
qed

lemma testsFinished_run:
  "testsFinished (snd (run e s sigs)) = testsFinished s + int (count_heard e s ''end'' sigs)"
proof (induction sigs arbitrary: s)
  case Nil
  then show ?case by simp
next
  case (Cons sig sigs)
  show ?case unfolding snd_run_Cons count_heard.simps Cons testsFinished_step by simp
qed

lemma failsOccured_run:
  "failsOccured (snd (run e s sigs)) =
     failsOccured s + int (count_heard e s ''fail'' sigs) - int (count_heard e s ''failRetry'' sigs)"
proof (induction sigs arbitrary: s)
  case Nil
  then show ?case by simp
next
  case (Cons sig sigs)
  show ?case unfolding snd_run_Cons count_heard.simps Cons failsOccured_step by simp
qed

lemma finalization_step:
  "filter is_finalization (fst (step e s sig)) =
     (if heard s ''end'' sig
         \<and> testsLength (r_options (reporters s ! the (origin sig))) = Some (testsFinished s + 1)
      then [WrappedEnd (failsOccured s)] else [])"
proof (cases sig)
  case (StdMessage f sn msg now)
  then show ?thesis by (simp add: step_StdMessage)
next
  case (StdFail f)
  then show ?thesis by (simp add: step_StdFail)
next
  case (Construct rn opts)
  have "\<not> is_finalization x" if "x \<in> set (fst (step e s (Construct rn opts)))" for x
    using that step_Construct_effects by blast
  then have "filter is_finalization (fst (step e s (Construct rn opts))) = []"
    by (simp add: filter_empty_conv)
  with Construct show ?thesis by simp
next
  case (RunnerSignal c t a now)
  show ?thesis
    unfolding RunnerSignal
    by (cases rule: step_RunnerSignal_cases [of c s e t a now])
      (simp_all add: fst_on_runner_event fst_on_end replay_no_finalization)
qed

lemma storeEventData_fields:
  "r_options (storeEventData t a now r) = r_options r"
  "testFile (storeEventData t a now r) = testFile r"
  "r_runner (storeEventData t a now r) = r_runner r"
  "eventsNotEmited (storeEventData t a now r) =
     eventsNotEmited r @ [\<lparr>ev_type = t, ev_data = a, ev_timestamp = now\<rparr>]"
  by (simp_all add: storeEventData_def)

lemma uniform_update:
  assumes "\<forall>r\<in>set rs. testsLength (r_options r) = Some n" "c < length rs"
  shows "\<forall>r\<in>set (rs[c := storeEventData t a now (rs ! c)]). testsLength (r_options r) = Some n"
proof
  fix r assume "r \<in> set (rs[c := storeEventData t a now (rs ! c)])"
  then have "r = storeEventData t a now (rs ! c) \<or> r \<in> set rs"
    using set_update_subset_insert by fastforce
  with assms show "testsLength (r_options r) = Some n"
    by (auto simp: storeEventData_fields)
qed

lemma uniform_step:
  assumes "\<forall>r\<in>set (reporters s). testsLength (r_options r) = Some n"
    and "\<And>rn opts. sig = Construct rn opts \<Longrightarrow> testsLength opts = Some n"
  shows "\<forall>r\<in>set (reporters (snd (step e s sig))). testsLength (r_options r) = Some n"
proof (cases sig)
  case (StdMessage f sn msg now)
  with assms show ?thesis by (simp add: step_StdMessage on_message_def Let_def)
next
  case (StdFail f)
  with assms show ?thesis by (simp add: step_StdFail on_std_fail_def)
next
  case (Construct rn opts)
  show ?thesis
  proof (cases "AbstractReporter e rn opts s")
    case (Inl err)
    with Construct assms(1) show ?thesis by (simp add: step_Construct)
  next
    case (Inr r)
    obtain outs s' where r: "r = (outs, s')" by (cases r)
    from AbstractReporter_fields(4) [OF Inr [unfolded r]] obtain rep where
      "reporters s' = reporters s @ [rep]" "testsLength (r_options rep) = testsLength opts"
      by blast
    with assms Construct have "\<forall>r\<in>set (reporters s'). testsLength (r_options r) = Some n"
      by simp
    with Construct Inr r show ?thesis by (simp add: step_Construct)
  qed
next
  case (RunnerSignal c t a now)
  show ?thesis
  proof (cases rule: step_RunnerSignal_cases [of c s e t a now])
    case unheard
    with assms(1) RunnerSignal show ?thesis by simp
  next
    case event
    with uniform_update [OF assms(1) event(1)] RunnerSignal show ?thesis
      by (simp add: on_runner_event_fields)
  next
    case ended
    with assms(1) RunnerSignal show ?thesis by (simp add: on_end_fields)
  next
    case other
    with assms(1) RunnerSignal show ?thesis by simp
  qed
qed

lemma finalizations_run:
  assumes "\<forall>r\<in>set (reporters s). testsLength (r_options r) = Some n"
    and "\<forall>rn opts. Construct rn opts \<in> set sigs \<longrightarrow> testsLength opts = Some n"
  shows "length (filter is_finalization (fst (run e s sigs))) =
     (if testsFinished s < n \<and> n \<le> testsFinished s + int (count_heard e s ''end'' sigs)
      then 1 else 0)"
  using assms
proof (induction sigs arbitrary: s)
  case Nil
  then show ?case by simp
next
  case (Cons sig sigs)
  let ?s1 = "snd (step e s sig)"
  let ?k = "count_heard e ?s1 ''end'' sigs"
  have c1: "testsLength opts = Some n" if "sig = Construct rn opts" for rn opts
  proof -
    from that have "Construct rn opts \<in> set (sig # sigs)" by simp
    with Cons.prems(2) show ?thesis by blast
  qed
  have c2: "\<forall>rn opts. Construct rn opts \<in> set sigs \<longrightarrow> testsLength opts = Some n"
  proof (intro allI impI)
    fix rn opts assume "Construct rn opts \<in> set sigs"
    then have "Construct rn opts \<in> set (sig # sigs)" by simp
    with Cons.prems(2) show "testsLength opts = Some n" by blast
  qed
  have u: "\<forall>r\<in>set (reporters ?s1). testsLength (r_options r) = Some n"
    using Cons.prems(1) c1 by (rule uniform_step)
  have ih: "length (filter is_finalization (fst (run e ?s1 sigs))) =
     (if testsFinished ?s1 < n \<and> n \<le> testsFinished ?s1 + int ?k then 1 else 0)"
    using Cons.IH [OF u c2] .
  have here: "length (filter is_finalization (fst (step e s sig))) =
     (if heard s ''end'' sig \<and> testsFinished s + 1 = n then 1 else 0)"
  proof (cases "heard s ''end'' sig")
    case True
    then obtain c t a now where sig: "sig = RunnerSignal c t a now" "c < length (reporters s)"
      by (cases sig) auto
    then have "testsLength (r_options (reporters s ! c)) = Some n"
      using Cons.prems(1) by simp
    with True sig(1) show ?thesis
      unfolding finalization_step by auto
  next
    case False
    then show ?thesis unfolding finalization_step by simp
  qed
  have tf: "testsFinished ?s1 = testsFinished s + (if heard s ''end'' sig then 1 else 0)"
    by (rule testsFinished_step)
  have len: "length (filter is_finalization (fst (run e s (sig # sigs)))) =
    length (filter is_finalization (fst (step e s sig)))
    + length (filter is_finalization (fst (run e ?s1 sigs)))"
    unfolding fst_run_Cons by simp
  have cnt: "count_heard e s ''end'' (sig # sigs) = (if heard s ''end'' sig then 1 else 0) + ?k"
    by simp
  show ?case
  proof (cases "heard s ''end'' sig")
    case True
    show ?thesis unfolding len here ih tf cnt using True by simp
  next
    case False
    show ?thesis unfolding len here ih tf cnt using False by simp
  qed
qed

lemma uniform_run:
  assumes "\<forall>r\<in>set (reporters s). testsLength (r_options r) = Some n"
    and "\<forall>rn opts. Construct rn opts \<in> set sigs \<longrightarrow> testsLength opts = Some n"
  shows "\<forall>r\<in>set (reporters (snd (run e s sigs))). testsLength (r_options r) = Some n"
  using assms
proof (induction sigs arbitrary: s)
  case Nil
  then show ?case by simp
next
  case (Cons sig sigs)
  have c1: "testsLength opts = Some n" if "sig = Construct rn opts" for rn opts
  proof -
    from that have "Construct rn opts \<in> set (sig # sigs)" by simp
    with Cons.prems(2) show ?thesis by blast
  qed
  have c2: "\<forall>rn opts. Construct rn opts \<in> set sigs \<longrightarrow> testsLength opts = Some n"
  proof (intro allI impI)
    fix rn opts assume "Construct rn opts \<in> set sigs"
    then have "Construct rn opts \<in> set (sig # sigs)" by simp
    with Cons.prems(2) show "testsLength opts = Some n" by blast
  qed
  have u: "\<forall>r\<in>set (reporters (snd (step e s sig))). testsLength (r_options r) = Some n"
    using Cons.prems(1) c1 by (rule uniform_step)
  show ?case unfolding snd_run_Cons using Cons.IH [OF u c2] .
qed

lemma init_state_fields:
  "testsFinished init_state = 0" "failsOccured init_state = 0" "reporters init_state = []"
  "reporterInstance init_state = None" "failListeners init_state = 0"
  "stdMessagesMap init_state = (\<lambda>k. None)"
  by (simp_all add: init_state_def)

text \<open>
  C3, as the code has it. \<open>testsFinished\<close> is the number of \<open>end\<close> signals heard so far:
  each one increments it once, and nothing bounds it. When every reporter is given the
  same expected count \<open>n\<close>, \<open>end\<close> is called on the wrapped runner exactly by the
  completion whose increment makes the counter equal to \<open>n\<close>: once in a run with at
  least \<open>n\<close> completions and \<open>n\<close> positive, never otherwise. It is called with the number
  of \<open>fail\<close> events minus the number of \<open>failRetry\<close> events heard before that completion,
  over all workers.
\<close>

theorem completion_barrier:
  assumes "\<forall>rn opts. Construct rn opts \<in> set sigs \<longrightarrow> testsLength opts = Some n"
  shows "testsFinished (snd (run e init_state sigs)) = int (count_heard e init_state ''end'' sigs)
    \<and> length (filter is_finalization (fst (run e init_state sigs))) =
        (if 0 < n \<and> n \<le> int (count_heard e init_state ''end'' sigs) then 1 else 0)
    \<and> (\<forall>pre sig post. sigs = pre @ sig # post \<longrightarrow>
         filter is_finalization (fst (step e (snd (run e init_state pre)) sig)) =
           (if heard (snd (run e init_state pre)) ''end'' sig
               \<and> int (count_heard e init_state ''end'' pre) + 1 = n
            then [WrappedEnd (int (count_heard e init_state ''fail'' pre)
                              - int (count_heard e init_state ''failRetry'' pre))]
            else []))"
proof -
  have u0: "\<forall>r\<in>set (reporters init_state). testsLength (r_options r) = Some n"
    by (simp add: init_state_fields)
  have 1: "testsFinished (snd (run e init_state sigs)) = int (count_heard e init_state ''end'' sigs)"
    by (simp add: testsFinished_run init_state_fields)
  have 2: "length (filter is_finalization (fst (run e init_state sigs))) =
        (if 0 < n \<and> n \<le> int (count_heard e init_state ''end'' sigs) then 1 else 0)"
    using finalizations_run [OF u0 assms, of e] by (simp add: init_state_fields)
  have 3: "filter is_finalization (fst (step e (snd (run e init_state pre)) sig)) =
           (if heard (snd (run e init_state pre)) ''end'' sig
               \<and> int (count_heard e init_state ''end'' pre) + 1 = n
            then [WrappedEnd (int (count_heard e init_state ''fail'' pre)
                              - int (count_heard e init_state ''failRetry'' pre))]
            else [])" if split: "sigs = pre @ sig # post" for pre sig post
  proof -
    let ?s = "snd (run e init_state pre)"
    have "\<forall>rn opts. Construct rn opts \<in> set pre \<longrightarrow> testsLength opts = Some n"
      using assms split by simp
    then have u: "\<forall>r\<in>set (reporters ?s). testsLength (r_options r) = Some n"
      using uniform_run [OF u0] by blast
    have tf: "testsFinished ?s = int (count_heard e init_state ''end'' pre)"
      by (simp add: testsFinished_run init_state_fields)
    have fo: "failsOccured ?s = int (count_heard e init_state ''fail'' pre)
                              - int (count_heard e init_state ''failRetry'' pre)"
      by (simp add: failsOccured_run init_state_fields)
    show ?thesis
    proof (cases "heard ?s ''end'' sig")
      case True
      then obtain c t a now where sig: "sig = RunnerSignal c t a now" "c < length (reporters ?s)"
        by (cases sig) auto
      then have "testsLength (r_options (reporters ?s ! c)) = Some n"
        using u by simp
      with True sig(1) show ?thesis
        unfolding finalization_step tf [symmetric] fo [symmetric] by auto
    next
      case False
      then show ?thesis unfolding finalization_step by simp
    qed
  qed
  from 1 2 3 show ?thesis by blast
qed

theorem completion_barrier_witness:
  "barrier_run = take 6 barrier_run @ RunnerSignal 1 ''end'' [] 5 # []
   \<and> testsFinished (snd (run env_spec init_state barrier_run)) = 2
   \<and> length (filter is_finalization (fst (run env_spec init_state barrier_run))) = 1
   \<and> filter is_finalization
        (fst (step env_spec (snd (run env_spec init_state (take 6 barrier_run)))
               (RunnerSignal 1 ''end'' [] 5))) = [WrappedEnd 1]"
proof -
  have h: "\<forall>rn opts. Construct rn opts \<in> set barrier_run \<longrightarrow> testsLength opts = Some 2"
    by (auto simp: barrier_run_def opts_for_def)
  have sp: "barrier_run = take 6 barrier_run @ RunnerSignal 1 ''end'' [] 5 # []"
    by (simp add: barrier_run_def)
  have c: "count_heard env_spec init_state ''end'' barrier_run = 2"
    by code_simp
  have p: "heard (snd (run env_spec init_state (take 6 barrier_run))) ''end''
             (RunnerSignal 1 ''end'' [] 5)"
    "count_heard env_spec init_state ''end'' (take 6 barrier_run) = 1"
    "count_heard env_spec init_state ''fail'' (take 6 barrier_run) = 2"
    "count_heard env_spec init_state ''failRetry'' (take 6 barrier_run) = 1"
    by code_simp+
  note t = completion_barrier [OF h, of env_spec]
  from t c have 1: "testsFinished (snd (run env_spec init_state barrier_run)) = 2"
    and 2: "length (filter is_finalization (fst (run env_spec init_state barrier_run))) = 1"
    by simp_all
  from t have "\<forall>pre sig post. barrier_run = pre @ sig # post \<longrightarrow>
         filter is_finalization (fst (step env_spec (snd (run env_spec init_state pre)) sig)) =
           (if heard (snd (run env_spec init_state pre)) ''end'' sig
               \<and> int (count_heard env_spec init_state ''end'' pre) + 1 = 2
            then [WrappedEnd (int (count_heard env_spec init_state ''fail'' pre)
                              - int (count_heard env_spec init_state ''failRetry'' pre))]
            else [])"
    by (elim conjE)
  from this sp have "filter is_finalization
        (fst (step env_spec (snd (run env_spec init_state (take 6 barrier_run)))
               (RunnerSignal 1 ''end'' [] 5))) =
           (if heard (snd (run env_spec init_state (take 6 barrier_run))) ''end''
                 (RunnerSignal 1 ''end'' [] 5)
               \<and> int (count_heard env_spec init_state ''end'' (take 6 barrier_run)) + 1 = 2
            then [WrappedEnd (int (count_heard env_spec init_state ''fail'' (take 6 barrier_run))
                     - int (count_heard env_spec init_state ''failRetry'' (take 6 barrier_run)))]
            else [])"
    by blast
  then have 3: "filter is_finalization
        (fst (step env_spec (snd (run env_spec init_state (take 6 barrier_run)))
               (RunnerSignal 1 ''end'' [] 5))) = [WrappedEnd 1]"
    unfolding p using p(1) by simp
  from sp 1 2 3 show ?thesis by blast
qed

text \<open>
  C3, as the specification has it, fails: where one worker is expected and two complete,
  the counter passes the expected count.
\<close>

theorem completion_barrier_counterexample:
  "\<not> testsFinished (snd (run env_spec init_state over_run)) \<le> the (testsLength (opts_for 1))"
  by code_simp

text \<open>
  C7, as the code has it. When the expected count is zero the reporter never calls \<open>end\<close>
  on the wrapped runner: the counter is compared after it has been incremented, so it is
  never zero at the comparison.
\<close>

theorem zero_expected_never_finalizes:
  assumes "\<forall>rn opts. Construct rn opts \<in> set sigs \<longrightarrow> testsLength opts = Some 0"
  shows "\<forall>x\<in>set (fst (run e init_state sigs)). \<not> is_finalization x"
proof -
  have u0: "\<forall>r\<in>set (reporters init_state). testsLength (r_options r) = Some 0"
    by (simp add: init_state_fields)
  have "length (filter is_finalization (fst (run e init_state sigs))) = 0"
    using finalizations_run [OF u0 assms, of e] by (simp add: init_state_fields)
  then show ?thesis by (simp add: filter_empty_conv)
qed

theorem zero_expected_never_finalizes_witness:
  "fst (run env_spec init_state zero_run) =
       [NewUserReporter ''Spec'' \<lparr>reporterName = Some ''spec'', testsLength = Some 0\<rparr>,
        WrappedStart]
   \<and> list_all (\<lambda>x. \<not> is_finalization x) (fst (run env_spec init_state zero_run))"
proof -
  have h: "\<forall>rn opts. Construct rn opts \<in> set zero_run \<longrightarrow> testsLength opts = Some 0"
    by (auto simp: zero_run_def opts_for_def)
  have v: "fst (run env_spec init_state zero_run) =
       [NewUserReporter ''Spec'' \<lparr>reporterName = Some ''spec'', testsLength = Some 0\<rparr>,
        WrappedStart]"
    by code_simp
  from v zero_expected_never_finalizes [OF h, of env_spec] show ?thesis
    unfolding list_all_iff by blast
qed

text \<open>
  C7, as the specification has it, fails: with an expected count of zero no finalization
  with failure count 0 happens, neither before any signal nor when a worker completes.
\<close>

theorem zero_expected_counterexample:
  "WrappedEnd 0 \<notin> set (fst (run env_spec init_state []))
   \<and> WrappedEnd 0 \<notin> set (fst (run env_spec init_state zero_run))"
  by code_simp

section \<open>The user's reporter\<close>

lemma constructed_first_append:
  "constructed_first (xs @ ys) \<longleftrightarrow>
     constructed_first xs \<and> ((\<exists>x\<in>set xs. is_construction x) \<or> constructed_first ys)"
  by (induction xs) auto

lemma constructed_first_split:
  "constructed_first outs \<Longrightarrow> outs = pre @ x # post \<Longrightarrow> is_emission x
   \<Longrightarrow> \<exists>y\<in>set pre. is_construction y"
proof (induction pre arbitrary: outs)
  case Nil
  then show ?case by (cases x) auto
next
  case (Cons p pre)
  then show ?case by (cases "is_construction p") auto
qed

lemma constructed_first_quiet:
  "constructed_first outs \<Longrightarrow> \<forall>x\<in>set outs. \<not> is_construction x
   \<Longrightarrow> \<forall>x\<in>set outs. \<not> is_emission x"
  by (induction outs) auto

lemma constructed_first_harmless:
  "\<forall>x\<in>set outs. \<not> is_emission x \<Longrightarrow> constructed_first outs"
  by (induction outs) auto

lemma replay_no_construction: "filter is_construction (replay evs msgs) = []"
proof -
  have "\<not> is_construction (reemit a)" for a by (cases a) auto
  then show ?thesis by (simp add: replay_def)
qed

lemma setReporterOnce_set:
  "reporterInstance s = Some i \<Longrightarrow> setReporterOnce e opts s = Inr ([], opts, s)"
  by (simp add: setReporterOnce_def)

lemma AbstractReporter_set:
  assumes "reporterInstance s = Some i"
  shows "\<exists>s'. AbstractReporter e rn opts s = Inr ([WrappedStart], s')
     \<and> reporterInstance s' = Some i \<and> reporters s' \<noteq> []"
  using assms
  by (cases rn) (simp_all add: AbstractReporter_def setReporterOnce_set detectFile_def)

lemma setReporterOnce_unset:
  assumes "reporterInstance s = None"
  shows "setReporterOnce e opts s =
     (case try_require e (reporterTryPaths e (effective_name opts)) of
        Some (ReporterClass c) \<Rightarrow>
          Inr ([NewUserReporter c (opts\<lparr>reporterName := Some (effective_name opts)\<rparr>)],
               opts\<lparr>reporterName := Some (effective_name opts)\<rparr>,
               s\<lparr>reporterInstance :=
                   Some (c, opts\<lparr>reporterName := Some (effective_name opts)\<rparr>)\<rparr>)
      | Some FalsyExport \<Rightarrow> Inl (InvalidReporter (effective_name opts))
      | None \<Rightarrow> Inl (InvalidReporter (effective_name opts)))"
  using assms by (simp add: setReporterOnce_def Let_def)

lemma AbstractReporter_unset:
  assumes "reporterInstance s = None"
  shows "(\<exists>err. AbstractReporter e rn opts s = Inl err)
     \<or> (\<exists>c os s'. AbstractReporter e rn opts s = Inr ([NewUserReporter c os, WrappedStart], s')
          \<and> reporterInstance s' = Some (c, os) \<and> reporters s' \<noteq> [])"
  using assms
  by (cases rn)
    (auto simp: AbstractReporter_def setReporterOnce_unset detectFile_def
      split: option.splits js_module.splits)

lemma instance_step:
  "reporterInstance (snd (step e s sig)) = reporterInstance s \<or> (\<exists>rn opts. sig = Construct rn opts)"
proof (cases sig)
  case (StdMessage f sn msg now)
  then show ?thesis by (simp add: step_StdMessage on_message_def Let_def)
next
  case (StdFail f)
  then show ?thesis by (simp add: step_StdFail on_std_fail_def)
next
  case (Construct rn opts)
  then show ?thesis by simp
next
  case (RunnerSignal c t a now)
  show ?thesis
    unfolding RunnerSignal
    by (cases rule: step_RunnerSignal_cases [of c s e t a now])
      (simp_all add: on_runner_event_fields on_end_fields)
qed

lemma length_reporters_step: "length (reporters s) \<le> length (reporters (snd (step e s sig)))"
proof (cases sig)
  case (StdMessage f sn msg now)
  then show ?thesis by (simp add: step_StdMessage on_message_def Let_def)
next
  case (StdFail f)
  then show ?thesis by (simp add: step_StdFail on_std_fail_def)
next
  case (Construct rn opts)
  show ?thesis
  proof (cases "AbstractReporter e rn opts s")
    case (Inl err)
    with Construct show ?thesis by (simp add: step_Construct)
  next
    case (Inr r)
    obtain outs s' where r: "r = (outs, s')" by (cases r)
    from AbstractReporter_fields(4) [OF Inr [unfolded r]] Construct Inr r show ?thesis
      by (auto simp: step_Construct)
  qed
next
  case (RunnerSignal c t a now)
  show ?thesis
    unfolding RunnerSignal
    by (cases rule: step_RunnerSignal_cases [of c s e t a now])
      (simp_all add: on_runner_event_fields on_end_fields)
qed

lemma no_construction_step:
  "(\<forall>rn opts. sig \<noteq> Construct rn opts) \<Longrightarrow> filter is_construction (fst (step e s sig)) = []"
proof (cases sig)
  case (StdMessage f sn msg now)
  then show ?thesis by (simp add: step_StdMessage)
next
  case (StdFail f)
  then show ?thesis by (simp add: step_StdFail)
next
  case (Construct rn opts)
  assume "\<forall>rn opts. sig \<noteq> Construct rn opts"
  with Construct show ?thesis by simp
next
  case (RunnerSignal c t a now)
  show ?thesis
    unfolding RunnerSignal
    by (cases rule: step_RunnerSignal_cases [of c s e t a now])
      (simp_all add: fst_on_runner_event fst_on_end replay_no_construction)
qed

text \<open>Once set, the instance stays, and nothing is constructed.\<close>

lemma instance_kept_step:
  assumes "reporterInstance s = Some i"
  shows "reporterInstance (snd (step e s sig)) = Some i
       \<and> filter is_construction (fst (step e s sig)) = []"
proof (cases "\<exists>rn opts. sig = Construct rn opts")
  case True
  then obtain rn opts where sig: "sig = Construct rn opts" by blast
  from AbstractReporter_set [OF assms, of e rn opts] sig show ?thesis
    by (auto simp: step_Construct)
next
  case False
  with instance_step [of e s sig] no_construction_step [of sig e s] assms show ?thesis by simp
qed

lemma instance_kept_run:
  assumes "reporterInstance s = Some i"
  shows "reporterInstance (snd (run e s sigs)) = Some i
       \<and> filter is_construction (fst (run e s sigs)) = []"
  using assms
proof (induction sigs arbitrary: s)
  case Nil
  then show ?case by simp
next
  case (Cons sig sigs)
  from instance_kept_step [OF Cons.prems, of e sig] Cons.IH [of "snd (step e s sig)"]
  show ?case unfolding fst_run_Cons snd_run_Cons by simp
qed

lemma length_reporters_run: "length (reporters s) \<le> length (reporters (snd (run e s sigs)))"
proof (induction sigs arbitrary: s)
  case Nil
  then show ?case by simp
next
  case (Cons sig sigs)
  from length_reporters_step [of s e sig] Cons [of "snd (step e s sig)"]
  show ?case unfolding snd_run_Cons by simp
qed

text \<open>Up to the first reporter, a run constructs nothing and emits nothing.\<close>

lemma fresh_step:
  assumes "reporterInstance s = None" "reporters s = []"
  shows "(reporterInstance (snd (step e s sig)) = None \<and> reporters (snd (step e s sig)) = []
          \<and> (\<forall>x\<in>set (fst (step e s sig)). \<not> is_construction x \<and> \<not> is_emission x))
       \<or> (reporterInstance (snd (step e s sig)) \<noteq> None \<and> reporters (snd (step e s sig)) \<noteq> []
          \<and> (\<exists>c os. fst (step e s sig) = [NewUserReporter c os, WrappedStart]))"
proof (cases sig)
  case (StdMessage f sn msg now)
  with assms show ?thesis by (simp add: step_StdMessage on_message_def Let_def)
next
  case (StdFail f)
  with assms show ?thesis by (simp add: step_StdFail on_std_fail_def)
next
  case (Construct rn opts)
  from AbstractReporter_unset [OF assms(1), of e rn opts] Construct assms show ?thesis
    by (auto simp: step_Construct)
next
  case (RunnerSignal c t a now)
  with assms show ?thesis by (simp add: step_unheard)
qed

lemma fresh_run:
  assumes "reporterInstance s = None" "reporters s = []"
  shows "constructed_first (fst (run e s sigs))
       \<and> length (filter is_construction (fst (run e s sigs))) =
           (if reporters (snd (run e s sigs)) = [] then 0 else 1)
       \<and> (reporterInstance (snd (run e s sigs)) = None \<longleftrightarrow> reporters (snd (run e s sigs)) = [])"
  using assms
proof (induction sigs arbitrary: s)
  case Nil
  then show ?case by simp
next
  case (Cons sig sigs)
  let ?s1 = "snd (step e s sig)"
  from fresh_step [OF Cons.prems, of e sig] show ?case
  proof
    assume a: "reporterInstance ?s1 = None \<and> reporters ?s1 = []
          \<and> (\<forall>x\<in>set (fst (step e s sig)). \<not> is_construction x \<and> \<not> is_emission x)"
    then have q: "filter is_construction (fst (step e s sig)) = []"
      "constructed_first (fst (step e s sig))"
      by (simp_all add: filter_empty_conv constructed_first_harmless)
    from a Cons.IH [of ?s1] q show ?thesis
      unfolding fst_run_Cons snd_run_Cons by (simp add: constructed_first_append)
  next
    assume a: "reporterInstance ?s1 \<noteq> None \<and> reporters ?s1 \<noteq> []
          \<and> (\<exists>c os. fst (step e s sig) = [NewUserReporter c os, WrappedStart])"
    then obtain i where i: "reporterInstance ?s1 = Some i" by auto
    from a length_reporters_run [of ?s1 e sigs] have ne: "reporters (snd (run e ?s1 sigs)) \<noteq> []"
      by auto
    from a instance_kept_run [OF i, of e sigs] ne show ?thesis
      unfolding fst_run_Cons snd_run_Cons by auto
  qed
qed

text \<open>
  C5. Over any signals in any order, the user's reporter is constructed once if any
  \<open>AbstractReporter\<close> has been constructed and not at all otherwise; once
  \<open>reporterInstance\<close> holds an instance it holds that instance for the rest of the run,
  so every later reporter finds it; and in the effects of the run a construction stands
  before every forwarded event and every written message.
\<close>

theorem single_sink:
  "length (filter is_construction (fst (run e init_state sigs))) =
      (if reporters (snd (run e init_state sigs)) = [] then 0 else 1)
   \<and> (\<forall>pre post i. sigs = pre @ post \<and> reporterInstance (snd (run e init_state pre)) = Some i
         \<longrightarrow> reporterInstance (snd (run e init_state sigs)) = Some i)
   \<and> (\<forall>pre x post. fst (run e init_state sigs) = pre @ x # post \<and> is_emission x
         \<longrightarrow> (\<exists>y\<in>set pre. is_construction y))"
proof -
  note f = fresh_run [of init_state e sigs, OF init_state_fields(4) init_state_fields(3)]
  have 2: "reporterInstance (snd (run e init_state sigs)) = Some i"
    if "sigs = pre @ post" "reporterInstance (snd (run e init_state pre)) = Some i" for pre post i
    using instance_kept_run [OF that(2), of e post] that(1) by (simp add: snd_run_append)
  have 3: "\<exists>y\<in>set pre. is_construction y"
    if "fst (run e init_state sigs) = pre @ x # post" "is_emission x" for pre x post
    using f that constructed_first_split by blast
  from f 2 3 show ?thesis by blast
qed

theorem single_sink_witness:
  "length (filter is_construction (fst (run env_spec init_state barrier_run))) = 1
   \<and> barrier_run = take 1 barrier_run @ drop 1 barrier_run
   \<and> reporterInstance (snd (run env_spec init_state (take 1 barrier_run))) =
       Some (''Spec'', \<lparr>reporterName = Some ''spec'', testsLength = Some 2\<rparr>)
   \<and> reporterInstance (snd (run env_spec init_state barrier_run)) =
       Some (''Spec'', \<lparr>reporterName = Some ''spec'', testsLength = Some 2\<rparr>)
   \<and> is_emission (WrappedEmit ''failRetry'' ''T1'')
   \<and> (\<exists>y\<in>set [NewUserReporter ''Spec'' \<lparr>reporterName = Some ''spec'', testsLength = Some 2\<rparr>,
                 WrappedStart, WrappedStart]. is_construction y)"
proof -
  note t = single_sink [of env_spec barrier_run]
  have r: "reporters (snd (run env_spec init_state barrier_run)) \<noteq> []"
    by code_simp
  have sp: "barrier_run = take 1 barrier_run @ drop 1 barrier_run"
    by simp
  have i: "reporterInstance (snd (run env_spec init_state (take 1 barrier_run))) =
       Some (''Spec'', \<lparr>reporterName = Some ''spec'', testsLength = Some 2\<rparr>)"
    by code_simp
  have o: "fst (run env_spec init_state barrier_run) =
      [NewUserReporter ''Spec'' \<lparr>reporterName = Some ''spec'', testsLength = Some 2\<rparr>,
       WrappedStart, WrappedStart] @ WrappedEmit ''failRetry'' ''T1'' #
      [WrappedEmit ''fail'' ''T1'', WrappedEmit ''failRetry'' ''T1'', WrappedEmit ''fail'' ''T2'',
       WrappedEnd 1]"
    by code_simp
  have em: "is_emission (WrappedEmit ''failRetry'' ''T1'')" by simp
  from t r have 1: "length (filter is_construction (fst (run env_spec init_state barrier_run))) = 1"
    by simp
  from t sp i have 2: "reporterInstance (snd (run env_spec init_state barrier_run)) =
       Some (''Spec'', \<lparr>reporterName = Some ''spec'', testsLength = Some 2\<rparr>)"
    by blast
  from t o em have 3: "\<exists>y\<in>set [NewUserReporter ''Spec''
        \<lparr>reporterName = Some ''spec'', testsLength = Some 2\<rparr>, WrappedStart, WrappedStart].
      is_construction y"
    by blast
  from 1 sp i 2 em 3 show ?thesis by blast
qed

text \<open>
  C8, as the code has it. The user's reporter is constructed by the constructor of the
  first \<open>AbstractReporter\<close>, before that reporter listens to its runner: in every run an
  instance exists exactly when some \<open>AbstractReporter\<close> has been constructed, and a
  constructor that finds no instance either throws or constructs one as its first effect.
  No completion is needed.
\<close>

theorem eager_sink:
  "(reporterInstance (snd (run e init_state sigs)) \<noteq> None) =
      (reporters (snd (run e init_state sigs)) \<noteq> [])
   \<and> (reporterInstance s = None \<longrightarrow>
        (\<exists>err. step e s (Construct rn opts) = ([Thrown err], s))
        \<or> (\<exists>c os. fst (step e s (Construct rn opts)) = [NewUserReporter c os, WrappedStart]
              \<and> reporterInstance (snd (step e s (Construct rn opts))) = Some (c, os)))"
proof -
  note f = fresh_run [of init_state e sigs, OF init_state_fields(4) init_state_fields(3)]
  have 2: "(\<exists>err. step e s (Construct rn opts) = ([Thrown err], s))
        \<or> (\<exists>c os. fst (step e s (Construct rn opts)) = [NewUserReporter c os, WrappedStart]
              \<and> reporterInstance (snd (step e s (Construct rn opts))) = Some (c, os))"
    if "reporterInstance s = None"
    using AbstractReporter_unset [OF that, of e rn opts] by (auto simp: step_Construct)
  from f have 1: "(reporterInstance (snd (run e init_state sigs)) \<noteq> None) =
      (reporters (snd (run e init_state sigs)) \<noteq> [])"
    by simp
  from 1 2 show ?thesis by (intro conjI impI)
qed

theorem eager_sink_witness:
  "reporterInstance init_state = None
   \<and> reporters (snd (run env_spec init_state construct_run)) \<noteq> []
   \<and> reporterInstance (snd (run env_spec init_state construct_run)) \<noteq> None
   \<and> fst (step env_spec init_state (Construct [''a.js''] (opts_for 1))) =
       [NewUserReporter ''Spec'' \<lparr>reporterName = Some ''spec'', testsLength = Some 1\<rparr>,
        WrappedStart]"
proof -
  note t = eager_sink [of env_spec construct_run init_state "[''a.js'']" "opts_for 1"]
  have r: "reporters (snd (run env_spec init_state construct_run)) \<noteq> []"
    by code_simp
  have n: "reporterInstance init_state = None"
    by (simp add: init_state_def)
  have v: "fst (step env_spec init_state (Construct [''a.js''] (opts_for 1))) =
       [NewUserReporter ''Spec'' \<lparr>reporterName = Some ''spec'', testsLength = Some 1\<rparr>,
        WrappedStart]"
    by code_simp
  from t r have "reporterInstance (snd (run env_spec init_state construct_run)) \<noteq> None"
    by blast
  with n r v show ?thesis by blast
qed

text \<open>
  C8, as the specification has it, fails: after the construction of one reporter the
  instance exists, and no worker has signalled completion.
\<close>

theorem lazy_sink_counterexample:
  "reporterInstance (snd (run env_spec init_state construct_run)) \<noteq> None
   \<and> count_heard env_spec init_state ''end'' construct_run = 0"
  by code_simp

subsection \<open>Finding the reporter\<close>

lemma try_require_order:
  "try_require e (reporterTryPaths e name) =
     (case js_require e (''mocha/lib/reporters/'' @ name) of
        Some m \<Rightarrow> Some m
      | None \<Rightarrow>
          (case js_require e name of
             Some m \<Rightarrow> Some m
           | None \<Rightarrow> js_require e (path_resolve_cwd e name)))"
  by (simp add: reporterTryPaths_def split: option.splits)

lemma Construct_resolved:
  assumes "reporterInstance s = None"
    "try_require e (reporterTryPaths e (effective_name opts)) = Some (ReporterClass c)"
  shows "fst (step e s (Construct rn opts)) =
     [NewUserReporter c (opts\<lparr>reporterName := Some (effective_name opts)\<rparr>), WrappedStart]"
  using assms
  by (cases rn)
    (simp_all add: step_Construct AbstractReporter_def setReporterOnce_unset detectFile_def)

lemma Construct_unresolved:
  assumes "reporterInstance s = None"
    "try_require e (reporterTryPaths e (effective_name opts)) = None
     \<or> try_require e (reporterTryPaths e (effective_name opts)) = Some FalsyExport"
  shows "step e s (Construct rn opts) = ([Thrown (InvalidReporter (effective_name opts))], s)"
  using assms
  by (auto simp: step_Construct AbstractReporter_def setReporterOnce_unset)

lemma quiet_before_instance:
  assumes "reporterInstance (snd (run e init_state sigs)) = None"
  shows "\<forall>x\<in>set (fst (run e init_state sigs)). \<not> is_emission x"
proof -
  note f = fresh_run [of init_state e sigs, OF init_state_fields(4) init_state_fields(3)]
  with assms have "length (filter is_construction (fst (run e init_state sigs))) = 0"
    by simp
  then have "\<forall>x\<in>set (fst (run e init_state sigs)). \<not> is_construction x"
    by (simp add: filter_empty_conv)
  with f constructed_first_quiet show ?thesis by blast
qed

text \<open>
  C9. While no instance exists, the constructor tries mocha's own reporter of the
  configured name (\<open>spec\<close> when none is configured), then the name as a package, then
  the name resolved against the working directory, and takes the first that loads. When
  that is a reporter class it is constructed. When none loads the constructor throws
  \<open>Invalid reporter\<close> with the name and changes nothing (as it does when what loads is a
  falsy export); and up to then the run has forwarded no event and written no message.
\<close>

theorem reporter_resolution:
  assumes "reporterInstance (snd (run e init_state sigs)) = None"
  shows "try_require e (reporterTryPaths e (effective_name opts)) =
           (case js_require e (''mocha/lib/reporters/'' @ effective_name opts) of
              Some m \<Rightarrow> Some m
            | None \<Rightarrow>
                (case js_require e (effective_name opts) of
                   Some m \<Rightarrow> Some m
                 | None \<Rightarrow> js_require e (path_resolve_cwd e (effective_name opts))))
       \<and> (\<forall>c. try_require e (reporterTryPaths e (effective_name opts)) = Some (ReporterClass c)
            \<longrightarrow> fst (step e (snd (run e init_state sigs)) (Construct rn opts)) =
                  [NewUserReporter c (opts\<lparr>reporterName := Some (effective_name opts)\<rparr>),
                   WrappedStart])
       \<and> (try_require e (reporterTryPaths e (effective_name opts)) = None
            \<longrightarrow> step e (snd (run e init_state sigs)) (Construct rn opts) =
                  ([Thrown (InvalidReporter (effective_name opts))], snd (run e init_state sigs)))
       \<and> (try_require e (reporterTryPaths e (effective_name opts)) = Some FalsyExport
            \<longrightarrow> step e (snd (run e init_state sigs)) (Construct rn opts) =
                  ([Thrown (InvalidReporter (effective_name opts))], snd (run e init_state sigs)))
       \<and> (\<forall>x\<in>set (fst (run e init_state sigs)). \<not> is_emission x)"
  using try_require_order [of e "effective_name opts"] Construct_resolved [OF assms, of e opts _ rn]
    Construct_unresolved [OF assms, of e opts rn] quiet_before_instance [OF assms]
  by blast

theorem reporter_resolution_witness:
  "reporterInstance (snd (run env_dot init_state [])) = None
   \<and> try_require env_dot (reporterTryPaths env_dot (effective_name (opts_named ''dot''))) =
       Some (ReporterClass ''mocha dot'')
   \<and> fst (step env_dot (snd (run env_dot init_state [])) (Construct [''a.js''] (opts_named ''dot''))) =
       [NewUserReporter ''mocha dot'' (opts_named ''dot''), WrappedStart]
   \<and> try_require env_none (reporterTryPaths env_none (effective_name (opts_named ''nope''))) = None
   \<and> step env_none (snd (run env_none init_state [])) (Construct [''a.js''] (opts_named ''nope'')) =
       ([Thrown (InvalidReporter ''nope'')], snd (run env_none init_state []))"
proof -
  have n: "reporterInstance (snd (run e init_state [])) = None" for e
    by (simp add: init_state_def)
  have d: "try_require env_dot (reporterTryPaths env_dot (effective_name (opts_named ''dot''))) =
       Some (ReporterClass ''mocha dot'')"
    by code_simp
  have u: "try_require env_none (reporterTryPaths env_none (effective_name (opts_named ''nope''))) =
       None"
    by code_simp
  have o: "(opts_named ''dot'')\<lparr>reporterName := Some (effective_name (opts_named ''dot''))\<rparr> =
       opts_named ''dot''"
    by (simp add: opts_named_def effective_name_def)
  from reporter_resolution [OF n, of env_dot "opts_named ''dot''" "[''a.js'']"] d o
  have 1: "fst (step env_dot (snd (run env_dot init_state []))
      (Construct [''a.js''] (opts_named ''dot''))) =
       [NewUserReporter ''mocha dot'' (opts_named ''dot''), WrappedStart]"
    by simp
  from reporter_resolution [OF n, of env_none "opts_named ''nope''" "[''a.js'']"] u
  have 2: "step env_none (snd (run env_none init_state []))
      (Construct [''a.js''] (opts_named ''nope'')) =
       ([Thrown (InvalidReporter (effective_name (opts_named ''nope'')))],
        snd (run env_none init_state []))"
    by blast
  have e: "effective_name (opts_named ''nope'') = ''nope''"
    by (simp add: opts_named_def effective_name_def)
  from n d 1 u 2 show ?thesis unfolding e by blast
qed

section \<open>The captured messages\<close>

subsection \<open>The map of messages along a run\<close>

lemma notify_fail_eq: "notify_fail n k m = (if n = 0 then m else m(k := None))"
proof (induction n arbitrary: m)
  case 0
  then show ?case by simp
next
  case (Suc n)
  then show ?case by (auto simp: fun_eq_iff)
qed

lemma failListeners_step: "failListeners s \<le> failListeners (snd (step e s sig))"
proof (cases sig)
  case (StdMessage f sn msg now)
  then show ?thesis by (simp add: step_StdMessage on_message_def Let_def)
next
  case (StdFail f)
  then show ?thesis by (simp add: step_StdFail on_std_fail_def)
next
  case (Construct rn opts)
  show ?thesis
  proof (cases "AbstractReporter e rn opts s")
    case (Inl err)
    with Construct show ?thesis by (simp add: step_Construct)
  next
    case (Inr r)
    obtain outs s' where r: "r = (outs, s')" by (cases r)
    from AbstractReporter_fields(5) [OF Inr [unfolded r]] Construct Inr r show ?thesis
      by (cases rn) (simp_all add: step_Construct)
  qed
next
  case (RunnerSignal c t a now)
  show ?thesis
    unfolding RunnerSignal
    by (cases rule: step_RunnerSignal_cases [of c s e t a now])
      (simp_all add: on_runner_event_fields on_end_fields)
qed

lemma messages_for_step:
  assumes "0 < failListeners s"
  shows "messages_for (snd (step e s sig)) (Some f) = captured f [sig] (messages_for s (Some f))"
proof (cases sig)
  case (StdMessage f' sn msg now)
  then show ?thesis
    by (simp add: step_StdMessage on_message_def Let_def messages_for_def)
next
  case (StdFail f')
  with assms show ?thesis
    by (simp add: step_StdFail on_std_fail_def notify_fail_eq messages_for_def)
next
  case (Construct rn opts)
  show ?thesis
  proof (cases "AbstractReporter e rn opts s")
    case (Inl err)
    with Construct show ?thesis by (simp add: step_Construct)
  next
    case (Inr r)
    obtain outs s' where r: "r = (outs, s')" by (cases r)
    from AbstractReporter_fields(3) [OF Inr [unfolded r]] Construct Inr r show ?thesis
      by (simp add: step_Construct messages_for_def)
  qed
next
  case (RunnerSignal c t a now)
  show ?thesis
    unfolding RunnerSignal
    by (cases rule: step_RunnerSignal_cases [of c s e t a now])
      (simp_all add: on_runner_event_fields on_end_fields messages_for_def)
qed

lemma captured_Cons: "captured f (sig # sigs) acc = captured f sigs (captured f [sig] acc)"
  by (cases sig) simp_all

lemma messages_for_run:
  assumes "0 < failListeners s"
  shows "messages_for (snd (run e s sigs)) (Some f) = captured f sigs (messages_for s (Some f))"
  using assms
proof (induction sigs arbitrary: s)
  case Nil
  then show ?case by simp
next
  case (Cons sig sigs)
  from Cons.prems failListeners_step [of s e sig]
  have "0 < failListeners (snd (step e s sig))" by simp
  from Cons.IH [OF this] messages_for_step [OF Cons.prems, of e sig f]
  show ?case unfolding snd_run_Cons captured_Cons [of f sig sigs] by simp
qed

lemma reporter_stable_step:
  assumes "c < length (reporters s)"
  shows "c < length (reporters (snd (step e s sig)))
       \<and> testFile (reporters (snd (step e s sig)) ! c) = testFile (reporters s ! c)
       \<and> r_options (reporters (snd (step e s sig)) ! c) = r_options (reporters s ! c)"
proof (cases sig)
  case (StdMessage f sn msg now)
  with assms show ?thesis by (simp add: step_StdMessage on_message_def Let_def)
next
  case (StdFail f)
  with assms show ?thesis by (simp add: step_StdFail on_std_fail_def)
next
  case (Construct rn opts)
  show ?thesis
  proof (cases "AbstractReporter e rn opts s")
    case (Inl err)
    with Construct assms show ?thesis by (simp add: step_Construct)
  next
    case (Inr r)
    obtain outs s' where r: "r = (outs, s')" by (cases r)
    from AbstractReporter_fields(4) [OF Inr [unfolded r]] Construct Inr r assms show ?thesis
      by (auto simp: step_Construct nth_append)
  qed
next
  case (RunnerSignal c' t a now)
  show ?thesis
    unfolding RunnerSignal
    using assms
    by (cases rule: step_RunnerSignal_cases [of c' s e t a now])
      (simp_all add: on_runner_event_fields on_end_fields nth_list_update storeEventData_fields)
qed

lemma reporter_stable_run:
  assumes "c < length (reporters s)"
  shows "c < length (reporters (snd (run e s sigs)))
       \<and> testFile (reporters (snd (run e s sigs)) ! c) = testFile (reporters s ! c)
       \<and> r_options (reporters (snd (run e s sigs)) ! c) = r_options (reporters s ! c)"
  using assms
proof (induction sigs arbitrary: s)
  case Nil
  then show ?case by simp
next
  case (Cons sig sigs)
  from reporter_stable_step [OF Cons.prems, of e sig] Cons.IH [of "snd (step e s sig)"]
  show ?case unfolding snd_run_Cons by simp
qed

text \<open>A reporter that has a file has registered a listener.\<close>

lemma listeners_step:
  assumes "(\<forall>r\<in>set (reporters s). testFile r = None) \<or> 0 < failListeners s"
  shows "(\<forall>r\<in>set (reporters (snd (step e s sig))). testFile r = None)
       \<or> 0 < failListeners (snd (step e s sig))"
proof (cases "0 < failListeners s")
  case True
  with failListeners_step [of s e sig] show ?thesis by simp
next
  case False
  with assms have none: "\<forall>r\<in>set (reporters s). testFile r = None" by simp
  show ?thesis
  proof (cases sig)
    case (StdMessage f sn msg now)
    with none show ?thesis by (simp add: step_StdMessage on_message_def Let_def)
  next
    case (StdFail f)
    with none show ?thesis by (simp add: step_StdFail on_std_fail_def)
  next
    case (Construct rn opts)
    show ?thesis
    proof (cases "AbstractReporter e rn opts s")
      case (Inl err)
      with Construct none show ?thesis by (simp add: step_Construct)
    next
      case (Inr r)
      obtain outs s' where r: "r = (outs, s')" by (cases r)
      from AbstractReporter_fields(4,5) [OF Inr [unfolded r]] Construct Inr r none show ?thesis
        by (cases rn) (auto simp: step_Construct)
    qed
  next
    case (RunnerSignal c t a now)
    have "\<forall>r\<in>set ((reporters s)[c := storeEventData t a now (reporters s ! c)]). testFile r = None"
      if "c < length (reporters s)"
    proof
      fix r assume "r \<in> set ((reporters s)[c := storeEventData t a now (reporters s ! c)])"
      then have "r = storeEventData t a now (reporters s ! c) \<or> r \<in> set (reporters s)"
        using set_update_subset_insert by fastforce
      with none that show "testFile r = None" by (auto simp: storeEventData_fields)
    qed
    with none show ?thesis
      unfolding RunnerSignal
      by (cases rule: step_RunnerSignal_cases [of c s e t a now])
        (simp_all add: on_runner_event_fields on_end_fields)
  qed
qed

lemma listeners_run:
  assumes "(\<forall>r\<in>set (reporters s). testFile r = None) \<or> 0 < failListeners s"
  shows "(\<forall>r\<in>set (reporters (snd (run e s sigs))). testFile r = None)
       \<or> 0 < failListeners (snd (run e s sigs))"
  using assms
proof (induction sigs arbitrary: s)
  case Nil
  then show ?case by simp
next
  case (Cons sig sigs)
  from Cons.IH [OF listeners_step [OF Cons.prems, of e sig]]
  show ?case unfolding snd_run_Cons .
qed

lemma listener_registered:
  assumes "c < length (reporters (snd (run e init_state pre)))"
    "testFile (reporters (snd (run e init_state pre)) ! c) = Some f"
  shows "0 < failListeners (snd (run e init_state pre))"
proof -
  have "(\<forall>r\<in>set (reporters init_state). testFile r = None) \<or> 0 < failListeners init_state"
    by (simp add: init_state_fields)
  from listeners_run [OF this, of e pre] assms show ?thesis
    by (metis nth_mem option.distinct(1))
qed

subsection \<open>The retry\<close>

lemma runner_keeps_map:
  "stdMessagesMap (snd (step e s (RunnerSignal c t a now))) = stdMessagesMap s"
  by (cases rule: step_RunnerSignal_cases [of c s e t a now])
    (simp_all add: on_runner_event_fields on_end_fields)

text \<open>
  C4, as the code has it. The \<open>fail\<close> event of a worker's runner adds one to
  \<open>failsOccured\<close> and its \<open>failRetry\<close> event takes one away, so the pair nets to zero;
  neither touches \<open>stdMessagesMap\<close>, and no event of any runner does. What clears the
  captured messages is the \<open>fail\<close> of the watcher on \<open>stdStreamsEmitter\<close>: for a worker
  whose reporter has a test file \<open>f\<close>, when that signal names \<open>f\<close> the entry of \<open>f\<close> leaves
  the map, and whatever follows, the replay at the worker's \<open>end\<close> merges its buffered
  events with exactly the messages captured for \<open>f\<close> after the signal.
\<close>

theorem retry_clears_output:
  fixes e :: env and pre post :: "signal list" and f :: string
  assumes "c < length (reporters (snd (run e init_state pre)))"
    and "testFile (reporters (snd (run e init_state pre)) ! c) = Some f"
  defines "s \<equiv> snd (run e init_state pre)"
  defines "s1 \<equiv> snd (step e s (StdFail f))"
  defines "s2 \<equiv> snd (run e s1 post)"
  shows "stdMessagesMap s1 (Some f) = None
       \<and> fst (step e s2 (RunnerSignal c ''end'' a now)) =
           replay (eventsNotEmited (reporters s2 ! c)) (captured f post [])
           @ (if testsLength (r_options (reporters s2 ! c)) = Some (testsFinished s2 + 1)
              then [WrappedEnd (failsOccured s2)] else [])
       \<and> failsOccured (snd (step e s (RunnerSignal c ''fail'' a1 t1))) = failsOccured s + 1
       \<and> failsOccured (snd (step e s2 (RunnerSignal c ''failRetry'' a2 t2))) = failsOccured s2 - 1
       \<and> failsOccured (snd (run e s [RunnerSignal c ''fail'' a1 t1,
                                      RunnerSignal c ''failRetry'' a2 t2])) = failsOccured s
       \<and> stdMessagesMap (snd (run e s [RunnerSignal c ''fail'' a1 t1,
                                        RunnerSignal c ''failRetry'' a2 t2])) = stdMessagesMap s
       \<and> stdMessagesMap (snd (step e s (RunnerSignal c' t a3 t3))) = stdMessagesMap s"
proof -
  have l: "0 < failListeners s"
    unfolding s_def using assms(1,2) by (rule listener_registered)
  have c: "c < length (reporters s)" unfolding s_def by (rule assms(1))
  have tf: "testFile (reporters s ! c) = Some f" unfolding s_def by (rule assms(2))
  have 1: "stdMessagesMap s1 (Some f) = None"
    unfolding s1_def using l by (simp add: step_StdFail on_std_fail_def notify_fail_eq)
  then have m1: "messages_for s1 (Some f) = []" by (simp add: messages_for_def)
  have l1: "0 < failListeners s1"
    unfolding s1_def using l failListeners_step [of s e "StdFail f"] by simp
  have c1: "c < length (reporters s1)" "testFile (reporters s1 ! c) = Some f"
    unfolding s1_def using reporter_stable_step [OF c, of e "StdFail f"] tf by simp_all
  have c2: "c < length (reporters s2)" "testFile (reporters s2 ! c) = Some f"
    unfolding s2_def using reporter_stable_run [OF c1(1), of e post] c1(2) by simp_all
  have m2: "messages_for s2 (Some f) = captured f post []"
    unfolding s2_def using messages_for_run [OF l1, of e post f] m1 by simp
  have 2: "fst (step e s2 (RunnerSignal c ''end'' a now)) =
           replay (eventsNotEmited (reporters s2 ! c)) (captured f post [])
           @ (if testsLength (r_options (reporters s2 ! c)) = Some (testsFinished s2 + 1)
              then [WrappedEnd (failsOccured s2)] else [])"
    using c2 m2 by (simp add: step_end fst_on_end)
  have 3: "failsOccured (snd (step e s (RunnerSignal c ''fail'' a1 t1))) = failsOccured s + 1"
    using c by (simp add: failsOccured_step)
  have 4: "failsOccured (snd (step e s2 (RunnerSignal c ''failRetry'' a2 t2))) = failsOccured s2 - 1"
    using c2(1) by (simp add: failsOccured_step)
  have c': "c < length (reporters (snd (step e s (RunnerSignal c ''fail'' a1 t1))))"
    using reporter_stable_step [OF c] by simp
  have 5: "failsOccured (snd (run e s [RunnerSignal c ''fail'' a1 t1,
                                      RunnerSignal c ''failRetry'' a2 t2])) = failsOccured s"
    unfolding snd_run_Cons using c c' by (simp add: failsOccured_step)
  have 6: "stdMessagesMap (snd (run e s [RunnerSignal c ''fail'' a1 t1,
                                        RunnerSignal c ''failRetry'' a2 t2])) = stdMessagesMap s"
    unfolding snd_run_Cons by (simp add: runner_keeps_map)
  have 7: "stdMessagesMap (snd (step e s (RunnerSignal c' t a3 t3))) = stdMessagesMap s"
    by (rule runner_keeps_map)
  from 1 2 3 4 5 6 7 show ?thesis by simp
qed

theorem retry_clears_output_witness:
  "0 < length (reporters (snd (run env_spec init_state (take 3 retry_run))))
   \<and> testFile (reporters (snd (run env_spec init_state (take 3 retry_run))) ! 0) = Some ''a.js''
   \<and> messages_for (snd (run env_spec init_state (take 3 retry_run))) (Some ''a.js'') =
       [\<lparr>streamName = Stdout, message = ''old'', timestamp = 1\<rparr>]
   \<and> stdMessagesMap
        (snd (step env_spec (snd (run env_spec init_state (take 3 retry_run))) (StdFail ''a.js'')))
        (Some ''a.js'') = None
   \<and> captured ''a.js'' (drop 4 retry_run) [] =
       [\<lparr>streamName = Stdout, message = ''new'', timestamp = 4\<rparr>]
   \<and> fst (step env_spec
         (snd (run env_spec
           (snd (step env_spec (snd (run env_spec init_state (take 3 retry_run)))
              (StdFail ''a.js'')))
           (drop 4 retry_run)))
         (RunnerSignal 0 ''end'' [] 6)) =
       [WrappedEmit ''fail'' ''T'', WrappedEmit ''failRetry'' ''T'', OriginalWrite Stdout ''new'',
        WrappedEmit ''pass'' ''T'', WrappedEnd 0]"
proof -
  have h1: "0 < length (reporters (snd (run env_spec init_state (take 3 retry_run))))"
    by code_simp
  have h2: "testFile (reporters (snd (run env_spec init_state (take 3 retry_run))) ! 0) =
      Some ''a.js''"
    by code_simp
  have b: "messages_for (snd (run env_spec init_state (take 3 retry_run))) (Some ''a.js'') =
       [\<lparr>streamName = Stdout, message = ''old'', timestamp = 1\<rparr>]"
    by code_simp
  have k: "captured ''a.js'' (drop 4 retry_run) [] =
       [\<lparr>streamName = Stdout, message = ''new'', timestamp = 4\<rparr>]"
    by code_simp
  have v: "fst (step env_spec
         (snd (run env_spec
           (snd (step env_spec (snd (run env_spec init_state (take 3 retry_run)))
              (StdFail ''a.js'')))
           (drop 4 retry_run)))
         (RunnerSignal 0 ''end'' [] 6)) =
       [WrappedEmit ''fail'' ''T'', WrappedEmit ''failRetry'' ''T'', OriginalWrite Stdout ''new'',
        WrappedEmit ''pass'' ''T'', WrappedEnd 0]"
    by code_simp
  have "stdMessagesMap
        (snd (step env_spec (snd (run env_spec init_state (take 3 retry_run))) (StdFail ''a.js'')))
        (Some ''a.js'') = None"
    by (rule retry_clears_output [OF h1 h2, where post = "drop 4 retry_run", THEN conjunct1])
  with h1 h2 b k v show ?thesis by blast
qed

text \<open>
  C4, as the specification has it, fails: a worker emits \<open>fail\<close>, then \<open>failRetry\<close>, then
  finishes, the watcher emits no \<open>fail\<close>, and the message captured before the retry is
  written in the final replay.
\<close>

theorem runner_retry_counterexample:
  "testFile (reporters (snd (run env_spec init_state runner_retry_run)) ! 0) = Some ''a.js''
   \<and> events_of 0 runner_retry_run =
       [\<lparr>ev_type = ''fail'', ev_data = ''T'', ev_timestamp = 2\<rparr>,
        \<lparr>ev_type = ''failRetry'', ev_data = ''T'', ev_timestamp = 3\<rparr>,
        \<lparr>ev_type = ''pass'', ev_data = ''T'', ev_timestamp = 4\<rparr>]
   \<and> messages_for (snd (run env_spec init_state runner_retry_run)) (Some ''a.js'') =
       [\<lparr>streamName = Stdout, message = ''old'', timestamp = 1\<rparr>]
   \<and> fst (step env_spec (snd (run env_spec init_state runner_retry_run))
            (RunnerSignal 0 ''end'' [] 5)) =
       [OriginalWrite Stdout ''old'', WrappedEmit ''fail'' ''T'', WrappedEmit ''failRetry'' ''T'',
        WrappedEmit ''pass'' ''T'', WrappedEnd 0]"
  by code_simp

subsection \<open>A worker without suites\<close>

lemma undefined_key_step:
  "stdMessagesMap (snd (step e s sig)) None = stdMessagesMap s None"
proof (cases sig)
  case (StdMessage f sn msg now)
  then show ?thesis by (simp add: step_StdMessage on_message_def Let_def)
next
  case (StdFail f)
  then show ?thesis by (simp add: step_StdFail on_std_fail_def notify_fail_eq)
next
  case (Construct rn opts)
  show ?thesis
  proof (cases "AbstractReporter e rn opts s")
    case (Inl err)
    with Construct show ?thesis by (simp add: step_Construct)
  next
    case (Inr r)
    obtain outs s' where r: "r = (outs, s')" by (cases r)
    from AbstractReporter_fields(3) [OF Inr [unfolded r]] Construct Inr r show ?thesis
      by (simp add: step_Construct)
  qed
next
  case (RunnerSignal c t a now)
  show ?thesis
    unfolding RunnerSignal
    by (cases rule: step_RunnerSignal_cases [of c s e t a now])
      (simp_all add: on_runner_event_fields on_end_fields)
qed

lemma undefined_key_run:
  "stdMessagesMap (snd (run e s sigs)) None = stdMessagesMap s None"
proof (induction sigs arbitrary: s)
  case Nil
  then show ?case by simp
next
  case (Cons sig sigs)
  show ?case unfolding snd_run_Cons Cons undefined_key_step ..
qed

lemma replay_events_only:
  "mset (replay evs []) = mset (map (\<lambda>ev. WrappedEmit (ev_type ev) (ev_data ev)) evs)"
proof -
  have "mset (replay evs []) = mset (map reemit (build_allEvents evs []))"
    unfolding replay_def mset_map mset_sort_events ..
  also have "map reemit (build_allEvents evs []) =
      map ((\<lambda>ev. WrappedEmit (ev_type ev) (ev_data ev)) \<circ> snd) (enumerate 0 evs)"
    by (auto simp: build_allEvents_def)
  also have "\<dots> = map (\<lambda>ev. WrappedEmit (ev_type ev) (ev_data ev)) evs"
    unfolding map_map [symmetric] map_snd_enumerate ..
  finally show ?thesis .
qed

text \<open>
  C10, as the code has it. A reporter constructed for a runner whose root suite has no
  child suites keeps \<open>_testFile\<close> undefined and registers no listener for \<open>fail\<close>. A
  later retry signal changes nothing while no reporter has registered a listener; once
  one has, the signal deletes the entry of the file it names, whichever worker wrote the
  messages. It never changes what is stored under the undefined key. At the worker's
  \<open>end\<close> the lookup under the undefined key finds nothing, the merge uses the empty
  list, and the replay consists of the buffered lifecycle events, each forwarded once,
  followed by the finalization when it is due: no message is written and nothing is
  thrown.
\<close>

theorem suiteless_worker:
  fixes e :: env and pre post :: "signal list"
  assumes "AbstractReporter e [] opts (snd (run e init_state pre)) = Inr (outs, s1)"
  defines "s \<equiv> snd (run e init_state pre)"
  defines "c \<equiv> length (reporters s)"
  defines "s2 \<equiv> snd (run e s1 post)"
  shows "testFile (reporters s1 ! c) = None
       \<and> failListeners s1 = failListeners s
       \<and> (failListeners s2 = 0 \<longrightarrow>
            stdMessagesMap (snd (step e s2 (StdFail f))) = stdMessagesMap s2)
       \<and> (0 < failListeners s2 \<longrightarrow>
            stdMessagesMap (snd (step e s2 (StdFail f))) = (stdMessagesMap s2)(Some f := None))
       \<and> messages_for (snd (step e s2 (StdFail f))) (testFile (reporters s2 ! c)) =
           messages_for s2 (testFile (reporters s2 ! c))
       \<and> messages_for s2 (testFile (reporters s2 ! c)) = []
       \<and> fst (step e s2 (RunnerSignal c ''end'' a now)) =
           replay (eventsNotEmited (reporters s2 ! c)) []
           @ (if testsLength (r_options (reporters s2 ! c)) = Some (testsFinished s2 + 1)
              then [WrappedEnd (failsOccured s2)] else [])
       \<and> mset (replay (eventsNotEmited (reporters s2 ! c)) []) =
           mset (map (\<lambda>ev. WrappedEmit (ev_type ev) (ev_data ev))
                  (eventsNotEmited (reporters s2 ! c)))"
proof -
  have a: "AbstractReporter e [] opts s = Inr (outs, s1)"
    unfolding s_def by (rule assms(1))
  from AbstractReporter_fields(4) [OF a] obtain r where
    r: "reporters s1 = reporters s @ [r]" "testFile r = None"
    by auto
  then have 1: "testFile (reporters s1 ! c) = None" and c1: "c < length (reporters s1)"
    unfolding c_def by simp_all
  have 2: "failListeners s1 = failListeners s"
    using AbstractReporter_fields(5) [OF a] by simp
  have 3: "stdMessagesMap (snd (step e s2 (StdFail f))) = stdMessagesMap s2"
    if "failListeners s2 = 0"
    using that by (simp add: step_StdFail on_std_fail_def)
  have clears: "stdMessagesMap (snd (step e s2 (StdFail f))) = (stdMessagesMap s2)(Some f := None)"
    if "0 < failListeners s2"
    using that by (simp add: step_StdFail on_std_fail_def notify_fail_eq)
  have c2: "c < length (reporters s2)" "testFile (reporters s2 ! c) = None"
    unfolding s2_def using reporter_stable_run [OF c1, of e post] 1 by simp_all
  have "stdMessagesMap s None = None"
    unfolding s_def undefined_key_run by (simp add: init_state_fields)
  then have "stdMessagesMap s1 None = None"
    using AbstractReporter_fields(3) [OF a] by simp
  then have u: "stdMessagesMap s2 None = None"
    unfolding s2_def undefined_key_run .
  then have 5: "messages_for s2 (testFile (reporters s2 ! c)) = []"
    using c2(2) by (simp add: messages_for_def)
  have 4: "messages_for (snd (step e s2 (StdFail f))) (testFile (reporters s2 ! c)) =
           messages_for s2 (testFile (reporters s2 ! c))"
    unfolding c2(2) messages_for_def undefined_key_step ..
  have 6: "fst (step e s2 (RunnerSignal c ''end'' a now)) =
           replay (eventsNotEmited (reporters s2 ! c)) []
           @ (if testsLength (r_options (reporters s2 ! c)) = Some (testsFinished s2 + 1)
              then [WrappedEnd (failsOccured s2)] else [])"
    using c2(1) 5 by (simp add: step_end fst_on_end)
  from 1 2 3 clears 4 5 6 replay_events_only show ?thesis by blast
qed

theorem suiteless_worker_witness:
  "testFile (reporters (snd (step env_spec init_state (Construct [] (opts_for 1)))) ! 0) = None
   \<and> failListeners (snd (step env_spec init_state (Construct [] (opts_for 1)))) = 0
   \<and> fst (step env_spec
         (snd (run env_spec (snd (step env_spec init_state (Construct [] (opts_for 1))))
            suiteless_run))
         (RunnerSignal 0 ''end'' [] 4)) =
       [WrappedEmit ''test'' ''T'', WrappedEmit ''pass'' ''T'', WrappedEnd 0]
   \<and> 0 < failListeners (snd (run env_spec init_state beside_run))
   \<and> stdMessagesMap
        (snd (step env_spec (snd (run env_spec init_state beside_run)) (StdFail ''a.js'')))
        (Some ''a.js'') = None"
proof -
  let ?s1 = "snd (step env_spec init_state (Construct [] (opts_for 1)))"
  have "case AbstractReporter env_spec [] (opts_for 1) init_state of
          Inl err \<Rightarrow> False | Inr r \<Rightarrow> True"
    by code_simp
  then obtain r where r: "AbstractReporter env_spec [] (opts_for 1) init_state = Inr r"
    by (cases "AbstractReporter env_spec [] (opts_for 1) init_state") auto
  then have "step env_spec init_state (Construct [] (opts_for 1)) = r"
    by (simp add: step_Construct)
  with r have a: "AbstractReporter env_spec [] (opts_for 1) (snd (run env_spec init_state [])) =
      Inr (fst (step env_spec init_state (Construct [] (opts_for 1))), ?s1)"
    by simp
  have z: "length (reporters (snd (run env_spec init_state []))) = 0"
    by (simp add: init_state_def)
  have l: "failListeners (snd (run env_spec init_state [])) = 0"
    by (simp add: init_state_def)
  have v: "fst (step env_spec (snd (run env_spec ?s1 suiteless_run))
         (RunnerSignal 0 ''end'' [] 4)) =
       [WrappedEmit ''test'' ''T'', WrappedEmit ''pass'' ''T'', WrappedEnd 0]"
    by code_simp
  note t = suiteless_worker [OF a, where post = suiteless_run and f = "''a.js''" and a = "[]"
      and now = 4]
  from t have 1: "testFile (reporters ?s1 ! length (reporters (snd (run env_spec init_state []))))
      = None"
    by (elim conjE)
  from t have 2: "failListeners ?s1 = failListeners (snd (run env_spec init_state []))"
    by (elim conjE)
  let ?p = "snd (run env_spec init_state (take 1 beside_run))"
  let ?q = "snd (step env_spec ?p (Construct [] (opts_for 2)))"
  have "case AbstractReporter env_spec [] (opts_for 2) ?p of
          Inl err \<Rightarrow> False | Inr r \<Rightarrow> True"
    by code_simp
  then obtain r' where r': "AbstractReporter env_spec [] (opts_for 2) ?p = Inr r'"
    by (cases "AbstractReporter env_spec [] (opts_for 2) ?p") auto
  then have "step env_spec ?p (Construct [] (opts_for 2)) = r'"
    by (simp add: step_Construct)
  with r' have a': "AbstractReporter env_spec [] (opts_for 2) ?p =
      Inr (fst (step env_spec ?p (Construct [] (opts_for 2))), ?q)"
    by simp
  have b: "snd (run env_spec ?q [StdMessage ''a.js'' Stdout ''m'' 1]) =
      snd (run env_spec init_state beside_run)"
  proof -
    have "beside_run = take 1 beside_run @ [Construct [] (opts_for 2)]
        @ [StdMessage ''a.js'' Stdout ''m'' 1]"
      by (simp add: beside_run_def)
    then have "snd (run env_spec init_state beside_run) =
        snd (run env_spec init_state (take 1 beside_run @ [Construct [] (opts_for 2)]
          @ [StdMessage ''a.js'' Stdout ''m'' 1]))"
      by simp
    also have "\<dots> = snd (run env_spec ?q [StdMessage ''a.js'' Stdout ''m'' 1])"
      unfolding snd_run_append snd_run_Cons by simp
    finally show ?thesis by simp
  qed
  have n: "0 < failListeners (snd (run env_spec init_state beside_run))"
    by code_simp
  note t' = suiteless_worker [OF a', where post = "[StdMessage ''a.js'' Stdout ''m'' 1]"
      and f = "''a.js''" and a = "[]" and now = 4, unfolded b]
  from t' have "0 < failListeners (snd (run env_spec init_state beside_run)) \<longrightarrow>
      stdMessagesMap
        (snd (step env_spec (snd (run env_spec init_state beside_run)) (StdFail ''a.js''))) =
      (stdMessagesMap (snd (run env_spec init_state beside_run)))(Some ''a.js'' := None)"
    by (elim conjE)
  with n have 3: "stdMessagesMap
        (snd (step env_spec (snd (run env_spec init_state beside_run)) (StdFail ''a.js'')))
        (Some ''a.js'') = None"
    by simp
  from 1 2 z l v n 3 show ?thesis by simp
qed

text \<open>
  C10, as the specification has it, fails: beside a worker that has a suite, the retry
  signal for \<open>a.js\<close> clears the messages captured for \<open>a.js\<close>, the output of the worker
  without suites.
\<close>

theorem suiteless_worker_counterexample:
  "testFile (reporters (snd (run env_spec init_state beside_run)) ! 1) = None
   \<and> messages_for (snd (run env_spec init_state beside_run)) (Some ''a.js'') =
       [\<lparr>streamName = Stdout, message = ''m'', timestamp = 1\<rparr>]
   \<and> messages_for (snd (step env_spec (snd (run env_spec init_state beside_run)) (StdFail ''a.js'')))
        (Some ''a.js'') = []"
  by code_simp

section \<open>The merge at \<open>end\<close>\<close>

lemma sorted_sort_events_strict:
  assumes "distinct (map slot xs)"
  shows "sorted_wrt spec_before (sort_events xs)"
proof -
  have "mset (map slot (sort_events xs)) = mset (map slot xs)"
    by (simp add: mset_sort_events)
  then have "distinct (map slot (sort_events xs))"
    using assms mset_eq_imp_distinct_iff by blast
  then show ?thesis by (rule sorted_strict [OF sorted_sort_events])
qed

lemma slots_total:
  assumes "distinct (map slot xs)" "a \<in> set xs" "b \<in> set xs" "a \<noteq> b"
  shows "spec_before a b \<or> spec_before b a"
proof -
  from assms have "slot a \<noteq> slot b"
    by (meson distinct_map inj_on_def)
  then show ?thesis by (rule spec_before_total)
qed

text \<open>
  C1. When the runner of a reporter emits \<open>end\<close>, what the listener re-emits is the
  array built from the reporter's buffered events and the messages captured for its
  file, sorted, entry by entry, followed by the finalization when it is due. The sorted
  array is a rearrangement of the built one in which every entry stands before every
  later one in the order timestamp ascending, then message before lifecycle event, then
  index ascending; any two different entries are ordered one way or the other, and every
  rearrangement the comparator accepts is the one the sort returns. The same holds of
  the sort on every array in which no two entries of the same type have the same index:
  the merge order is determined.
\<close>

theorem merge_order_total:
  fixes s :: state and c :: nat
  assumes "c < length (reporters s)"
  defines "allEvents \<equiv>
     build_allEvents (eventsNotEmited (reporters s ! c))
       (messages_for s (testFile (reporters s ! c)))"
  shows "fst (step e s (RunnerSignal c ''end'' a now)) =
           map reemit (sort_events allEvents)
           @ (if testsLength (r_options (reporters s ! c)) = Some (testsFinished s + 1)
              then [WrappedEnd (failsOccured s)] else [])
       \<and> mset (sort_events allEvents) = mset allEvents
       \<and> sorted_wrt spec_before (sort_events allEvents)
       \<and> (\<forall>x\<in>set allEvents. \<forall>y\<in>set allEvents. x \<noteq> y \<longrightarrow> spec_before x y \<or> spec_before y x)
       \<and> (\<forall>ys. mset ys = mset allEvents \<and> sorted_wrt (\<lambda>x y. compare_events x y \<le> 0) ys
               \<longrightarrow> ys = sort_events allEvents)
       \<and> (\<forall>xs. distinct (map slot xs) \<longrightarrow>
             mset (sort_events xs) = mset xs
             \<and> sorted_wrt spec_before (sort_events xs)
             \<and> (\<forall>x\<in>set xs. \<forall>y\<in>set xs. x \<noteq> y \<longrightarrow> spec_before x y \<or> spec_before y x)
             \<and> (\<forall>ys. mset ys = mset xs \<and> sorted_wrt (\<lambda>x y. compare_events x y \<le> 0) ys
                     \<longrightarrow> ys = sort_events xs))"
proof -
  have g: "mset (sort_events xs) = mset xs
             \<and> sorted_wrt spec_before (sort_events xs)
             \<and> (\<forall>x\<in>set xs. \<forall>y\<in>set xs. x \<noteq> y \<longrightarrow> spec_before x y \<or> spec_before y x)
             \<and> (\<forall>ys. mset ys = mset xs \<and> sorted_wrt (\<lambda>x y. compare_events x y \<le> 0) ys
                     \<longrightarrow> ys = sort_events xs)"
    if d: "distinct (map slot xs)" for xs
    using mset_sort_events [of xs] sorted_sort_events_strict [OF d] slots_total [OF d]
      sort_events_unique [OF d]
    by blast
  have d: "distinct (map slot allEvents)"
    unfolding allEvents_def by (rule build_allEvents_distinct)
  have 1: "fst (step e s (RunnerSignal c ''end'' a now)) =
           map reemit (sort_events allEvents)
           @ (if testsLength (r_options (reporters s ! c)) = Some (testsFinished s + 1)
              then [WrappedEnd (failsOccured s)] else [])"
    unfolding allEvents_def using assms(1) by (simp add: step_end fst_on_end replay_def)
  from 1 g [OF d] g show ?thesis by blast
qed

text \<open>
  The theorem at the example worker: its buffer and its messages are those of the
  example, the comparator alone fixes the result of the sort, and the replay follows it.
\<close>

theorem merge_order_total_witness:
  "0 < length (reporters (snd (run env_spec init_state example_run)))
   \<and> eventsNotEmited (reporters (snd (run env_spec init_state example_run)) ! 0) = example_events
   \<and> messages_for (snd (run env_spec init_state example_run))
         (testFile (reporters (snd (run env_spec init_state example_run)) ! 0)) = example_messages
   \<and> sort_events (build_allEvents example_events example_messages) =
       [runnerEvent ''suite'' ''S'' 0 10, stdStreamMessage Stderr ''m2'' 1 15,
        stdStreamMessage Stdout ''m1'' 0 20, runnerEvent ''test'' ''T'' 1 20,
        runnerEvent ''pass'' ''T'' 2 20]
   \<and> distinct (map slot (build_allEvents example_events example_messages))
   \<and> sorted_wrt spec_before (sort_events (build_allEvents example_events example_messages))
   \<and> fst (step env_spec (snd (run env_spec init_state example_run))
            (RunnerSignal 0 ''end'' [] 30)) =
       [WrappedEmit ''suite'' ''S'', OriginalWrite Stderr ''m2'', OriginalWrite Stdout ''m1'',
        WrappedEmit ''test'' ''T'', WrappedEmit ''pass'' ''T'']"
proof -
  define s0 where "s0 = snd (run env_spec init_state example_run)"
  define xs where "xs = build_allEvents example_events example_messages"
  define ys where "ys = [runnerEvent ''suite'' ''S'' 0 10, stdStreamMessage Stderr ''m2'' 1 15,
        stdStreamMessage Stdout ''m1'' 0 20, runnerEvent ''test'' ''T'' 1 20,
        runnerEvent ''pass'' ''T'' 2 20]"
  have h: "0 < length (reporters s0)"
    unfolding s0_def by code_simp
  have ev: "eventsNotEmited (reporters s0 ! 0) = example_events"
    unfolding s0_def by code_simp
  have ms: "messages_for s0 (testFile (reporters s0 ! 0)) = example_messages"
    unfolding s0_def by code_simp
  have tl: "testsLength (r_options (reporters s0 ! 0)) \<noteq> Some (testsFinished s0 + 1)"
    unfolding s0_def by code_simp
  have xs: "xs = [runnerEvent ''suite'' ''S'' 0 10, runnerEvent ''test'' ''T'' 1 20,
        runnerEvent ''pass'' ''T'' 2 20, stdStreamMessage Stdout ''m1'' 0 20,
        stdStreamMessage Stderr ''m2'' 1 15]"
    by (simp add: xs_def build_allEvents_def example_events_def example_messages_def
        enumerate_eq_zip upt_rec)
  have m: "mset ys = mset xs"
    unfolding xs ys_def by simp
  have o: "sorted_wrt (\<lambda>a b. compare_events a b \<le> 0) ys"
    unfolding ys_def by (simp add: compare_events_def)
  note t = merge_order_total [OF h, of env_spec "[]" 30, unfolded ev ms, folded xs_def]
  from t have u: "\<forall>zs. mset zs = mset xs \<and> sorted_wrt (\<lambda>a b. compare_events a b \<le> 0) zs
               \<longrightarrow> zs = sort_events xs"
    by (elim conjE)
  from u m o have eq: "sort_events xs = ys" by (elim allE [of _ ys]) simp
  from t have "fst (step env_spec s0 (RunnerSignal 0 ''end'' [] 30)) =
      map reemit (sort_events xs)
      @ (if testsLength (r_options (reporters s0 ! 0)) = Some (testsFinished s0 + 1)
         then [WrappedEnd (failsOccured s0)] else [])"
    by (elim conjE)
  with tl eq have r: "fst (step env_spec s0 (RunnerSignal 0 ''end'' [] 30)) = map reemit ys"
    by simp
  have "map reemit ys =
       [WrappedEmit ''suite'' ''S'', OriginalWrite Stderr ''m2'', OriginalWrite Stdout ''m1'',
        WrappedEmit ''test'' ''T'', WrappedEmit ''pass'' ''T'']"
    unfolding ys_def by simp
  moreover have d: "distinct (map slot xs)"
    unfolding xs by (simp add: slot_def)
  moreover from t have "\<forall>zs. distinct (map slot zs) \<longrightarrow> sorted_wrt spec_before (sort_events zs)"
    by (elim conjE) blast
  with d have "sorted_wrt spec_before (sort_events xs)" by blast
  ultimately show ?thesis
    using r h ev ms eq unfolding s0_def xs_def ys_def by simp
qed

section \<open>Nothing before \<open>end\<close>\<close>

lemma runner_signal_effects:
  "fst (step e s (RunnerSignal c t a now)) =
     (if c < length (reporters s) \<and> t = ''end'' then
        replay (eventsNotEmited (reporters s ! c)) (messages_for s (testFile (reporters s ! c)))
        @ (if testsLength (r_options (reporters s ! c)) = Some (testsFinished s + 1)
           then [WrappedEnd (failsOccured s)] else [])
      else if c < length (reporters s) \<and> t = ''failRetry'' then [WrappedEmit t a]
      else [])"
  by (cases rule: step_RunnerSignal_cases [of c s e t a now])
    (simp_all add: fst_on_runner_event fst_on_end)

lemma buffer_step:
  assumes "c < length (reporters s)"
  shows "eventsNotEmited (reporters (snd (step e s sig)) ! c) =
     eventsNotEmited (reporters s ! c) @ events_of c [sig]"
proof (cases sig)
  case (StdMessage f sn msg now)
  then show ?thesis by (simp add: step_StdMessage on_message_def Let_def)
next
  case (StdFail f)
  then show ?thesis by (simp add: step_StdFail on_std_fail_def)
next
  case (Construct rn opts)
  show ?thesis
  proof (cases "AbstractReporter e rn opts s")
    case (Inl err)
    with Construct show ?thesis by (simp add: step_Construct)
  next
    case (Inr r)
    obtain outs s' where r: "r = (outs, s')" by (cases r)
    from AbstractReporter_fields(4) [OF Inr [unfolded r]] Construct Inr r assms show ?thesis
      by (auto simp: step_Construct nth_append)
  qed
next
  case (RunnerSignal c' t a now)
  show ?thesis
  proof (cases "c' < length (reporters s)")
    case False
    with assms have "c' \<noteq> c" by auto
    with False RunnerSignal show ?thesis by (simp add: step_unheard)
  next
    case heard: True
    show ?thesis
    proof (cases "t \<in> set RUNNER_EVENTS")
      case True
      with heard RunnerSignal assms show ?thesis
        by (simp add: step_event on_runner_event_fields nth_list_update storeEventData_fields)
    next
      case nev: False
      show ?thesis
      proof (cases "t = ''end''")
        case True
        with heard nev RunnerSignal show ?thesis
          by (simp add: step_end on_end_fields)
      next
        case False
        with nev RunnerSignal show ?thesis by (simp add: step_other)
      qed
    qed
  qed
qed

lemma events_of_Cons: "events_of c (sig # sigs) = events_of c [sig] @ events_of c sigs"
  by (cases sig) simp_all

lemma buffer_run:
  assumes "c < length (reporters s)"
  shows "eventsNotEmited (reporters (snd (run e s sigs)) ! c) =
     eventsNotEmited (reporters s ! c) @ events_of c sigs"
  using assms
proof (induction sigs arbitrary: s)
  case Nil
  then show ?case by simp
next
  case (Cons sig sigs)
  from reporter_stable_step [OF Cons.prems, of e sig]
  have "c < length (reporters (snd (step e s sig)))" by simp
  from Cons.IH [OF this] buffer_step [OF Cons.prems, of e sig]
  show ?case unfolding snd_run_Cons events_of_Cons [of c sig sigs] by simp
qed

lemma own_effects_before_end:
  assumes "\<forall>a now. RunnerSignal c ''end'' a now \<notin> set sigs"
  shows "\<forall>x\<in>set (effects_from e s (Some c) sigs). \<exists>a. x = WrappedEmit ''failRetry'' a"
  using assms
proof (induction sigs arbitrary: s)
  case Nil
  then show ?case by simp
next
  case (Cons sig sigs)
  have here: "\<exists>a. x = WrappedEmit ''failRetry'' a"
    if "origin sig = Some c" "x \<in> set (fst (step e s sig))" for x
  proof -
    from that(1) obtain t a now where sig: "sig = RunnerSignal c t a now"
      by (cases sig) auto
    with Cons.prems have "t \<noteq> ''end''" by auto
    with that(2) sig show ?thesis using early_signal_effects by blast
  qed
  from Cons have "\<forall>x\<in>set (effects_from e (snd (step e s sig)) (Some c) sigs).
      \<exists>a. x = WrappedEmit ''failRetry'' a"
    by simp
  with here show ?case by auto
qed

lemma unattributed_effects:
  "\<forall>x\<in>set (effects_from e s None sigs). \<not> is_emission x"
proof (induction sigs arbitrary: s)
  case Nil
  then show ?case by simp
next
  case (Cons sig sigs)
  have "\<not> is_emission x" if "origin sig = None" "x \<in> set (fst (step e s sig))" for x
    using that by (cases sig) (auto simp: step_StdMessage step_StdFail dest: step_Construct_effects)
  with Cons show ?case by auto
qed

text \<open>
  C2, as the code has it. As long as the runner of reporter \<open>c\<close> has not emitted \<open>end\<close>,
  the listeners of that reporter forward nothing to the wrapped runner but \<open>failRetry\<close>
  events and write no captured message, and every event of \<open>RUNNER_EVENTS\<close> it emits is
  stored in the reporter's own buffer. No listener of the watcher and no constructor
  forwards an event or writes a message. The \<open>end\<close> listener of any reporter replays
  that reporter's own buffer and the messages stored under that reporter's own file, and
  no other listener of a runner emits anything but a \<open>failRetry\<close>. So the events of a
  worker other than \<open>failRetry\<close> never reach the wrapped runner before its \<open>end\<close>, and
  its captured messages are written before its \<open>end\<close> only by the \<open>end\<close> of another
  reporter constructed for the same file.
\<close>

theorem no_early_emission:
  assumes "\<forall>a now. RunnerSignal c ''end'' a now \<notin> set sigs"
  shows "(\<forall>x\<in>set (effects_from e s (Some c) sigs). \<exists>a. x = WrappedEmit ''failRetry'' a)
       \<and> (\<forall>x\<in>set (effects_from e s None sigs). \<not> is_emission x)
       \<and> (\<forall>pre c' t a now post. sigs = pre @ RunnerSignal c' t a now # post \<longrightarrow>
            fst (step e (snd (run e s pre)) (RunnerSignal c' t a now)) =
              (if c' < length (reporters (snd (run e s pre))) \<and> t = ''end'' then
                 replay (eventsNotEmited (reporters (snd (run e s pre)) ! c'))
                   (messages_for (snd (run e s pre))
                      (testFile (reporters (snd (run e s pre)) ! c')))
                 @ (if testsLength (r_options (reporters (snd (run e s pre)) ! c')) =
                       Some (testsFinished (snd (run e s pre)) + 1)
                    then [WrappedEnd (failsOccured (snd (run e s pre)))] else [])
               else if c' < length (reporters (snd (run e s pre))) \<and> t = ''failRetry''
                 then [WrappedEmit t a]
               else []))
       \<and> (c < length (reporters s) \<longrightarrow>
            eventsNotEmited (reporters (snd (run e s sigs)) ! c) =
              eventsNotEmited (reporters s ! c) @ events_of c sigs)"
proof (intro conjI allI impI)
  show "\<forall>x\<in>set (effects_from e s (Some c) sigs). \<exists>a. x = WrappedEmit ''failRetry'' a"
    using assms by (rule own_effects_before_end)
  show "\<forall>x\<in>set (effects_from e s None sigs). \<not> is_emission x"
    by (rule unattributed_effects)
  show "fst (step e (snd (run e s pre)) (RunnerSignal c' t a now)) =
              (if c' < length (reporters (snd (run e s pre))) \<and> t = ''end'' then
                 replay (eventsNotEmited (reporters (snd (run e s pre)) ! c'))
                   (messages_for (snd (run e s pre))
                      (testFile (reporters (snd (run e s pre)) ! c')))
                 @ (if testsLength (r_options (reporters (snd (run e s pre)) ! c')) =
                       Some (testsFinished (snd (run e s pre)) + 1)
                    then [WrappedEnd (failsOccured (snd (run e s pre)))] else [])
               else if c' < length (reporters (snd (run e s pre))) \<and> t = ''failRetry''
                 then [WrappedEmit t a]
               else [])" for pre c' t a now
    by (rule runner_signal_effects)
  show "eventsNotEmited (reporters (snd (run e s sigs)) ! c) =
              eventsNotEmited (reporters s ! c) @ events_of c sigs"
    if "c < length (reporters s)"
    using that by (rule buffer_run)
qed

theorem no_early_emission_witness:
  "RunnerSignal 1 ''end'' [] 5 \<notin> set barrier_middle
   \<and> 1 < length (reporters barrier_started)
   \<and> barrier_middle = take 3 barrier_middle @ RunnerSignal 0 ''end'' [] 4 # []
   \<and> list_all (\<lambda>x. \<exists>a. x = WrappedEmit ''failRetry'' a)
         (effects_from env_spec barrier_started (Some 1) barrier_middle)
   \<and> list_all (\<lambda>x. \<not> is_emission x) (effects_from env_spec barrier_started None barrier_middle)
   \<and> fst (step env_spec (snd (run env_spec barrier_started (take 3 barrier_middle)))
            (RunnerSignal 0 ''end'' [] 4)) =
       [WrappedEmit ''fail'' ''T1'', WrappedEmit ''failRetry'' ''T1'']
   \<and> eventsNotEmited (reporters (snd (run env_spec barrier_started barrier_middle)) ! 1) =
       [\<lparr>ev_type = ''fail'', ev_data = ''T2'', ev_timestamp = 3\<rparr>]"
proof -
  have h: "\<forall>a now. RunnerSignal 1 ''end'' a now \<notin> set barrier_middle"
    by (simp add: barrier_middle_def barrier_run_def)
  then have h': "RunnerSignal 1 ''end'' [] 5 \<notin> set barrier_middle" by blast
  have l: "1 < length (reporters barrier_started)"
    by code_simp
  have sp: "barrier_middle = take 3 barrier_middle @ RunnerSignal 0 ''end'' [] 4 # []"
    by (simp add: barrier_middle_def barrier_run_def)
  have b0: "eventsNotEmited (reporters barrier_started ! 1) = []"
    by code_simp
  have ev: "events_of 1 barrier_middle =
      [\<lparr>ev_type = ''fail'', ev_data = ''T2'', ev_timestamp = 3\<rparr>]"
    by code_simp
  have v: "fst (step env_spec (snd (run env_spec barrier_started (take 3 barrier_middle)))
            (RunnerSignal 0 ''end'' [] 4)) =
       [WrappedEmit ''fail'' ''T1'', WrappedEmit ''failRetry'' ''T1'']"
    by code_simp
  note t = no_early_emission [OF h, of env_spec barrier_started]
  from t have 1: "list_all (\<lambda>x. \<exists>a. x = WrappedEmit ''failRetry'' a)
         (effects_from env_spec barrier_started (Some 1) barrier_middle)"
    unfolding list_all_iff by (elim conjE)
  from t have 2: "list_all (\<lambda>x. \<not> is_emission x)
         (effects_from env_spec barrier_started None barrier_middle)"
    unfolding list_all_iff by (elim conjE)
  from t l have "eventsNotEmited (reporters (snd (run env_spec barrier_started barrier_middle)) ! 1)
      = eventsNotEmited (reporters barrier_started ! 1) @ events_of 1 barrier_middle"
    by (elim conjE) simp
  then have 4: "eventsNotEmited (reporters (snd (run env_spec barrier_started barrier_middle)) ! 1)
      = [\<lparr>ev_type = ''fail'', ev_data = ''T2'', ev_timestamp = 3\<rparr>]"
    unfolding b0 ev by simp
  from h' l sp 1 2 v 4 show ?thesis by (intro conjI)
qed

text \<open>
  C2, as the specification has it, fails: two reporters are constructed for \<open>a.js\<close>, the
  runner of the first has not ended and its buffered event has not been forwarded, and
  the \<open>end\<close> of the second writes the message captured for \<open>a.js\<close>.
\<close>

theorem no_early_emission_counterexample:
  "testFile (reporters (snd (run env_spec init_state shared_run)) ! 0) = Some ''a.js''
   \<and> RunnerSignal 0 ''end'' [] 3 \<notin> set shared_run
   \<and> events_of 0 shared_run = [\<lparr>ev_type = ''test'', ev_data = ''T'', ev_timestamp = 1\<rparr>]
   \<and> effects_from env_spec init_state (Some 0) shared_run = []
   \<and> effects_from env_spec init_state (Some 1) shared_run = [OriginalWrite Stdout ''m'']
   \<and> OriginalWrite Stdout ''m'' \<in> set (fst (run env_spec init_state shared_run))"
  by code_simp

end
